theory Spec2Isabelle
  imports Main "HOL-Library.Word" "HOL-Library.Multiset"
begin

unbundle bit_operations_syntax

section \<open>The Go-TLS instrumentation coordinator (package usm, goTLSProgram)\<close>

text \<open>
  The Go source attaches uprobes to the binaries of running Go processes. Its state is
  the manager's list of probes, an eBPF hash map holding the result of the binary
  analysis, two telemetry counters and a file registry that counts the processes of
  each binary. The functions below follow the source function by function; every call
  that leaves the package (the manager, the eBPF map, the file system, the logger) is
  written into the state and recorded in a log of events, so that a statement about
  what was called, and in which order, is a statement about that log.

  Debug-level log lines, the clock of the elapsed-time measurement, the closing of the
  opened file and \<open>ddebpf.AddProgramNameMapping\<close> change nothing the functions
  read; they are left out.
\<close>

subsection \<open>Data\<close>

type_synonym pid = "32 word"
type_synonym uint32 = "32 word"
type_synonym uint64 = "64 word"

text \<open>\<open>utils.PathIdentifier\<close> and \<open>utils.FilePath\<close>: the fields the source reads.\<close>

record PathIdentifier =
  Dev :: uint64
  Inode :: uint64

record FilePath =
  HostPath :: string
  ID :: PathIdentifier

text \<open>\<open>gotls.TlsBinaryId\<close>, the key of the \<open>offsets_data\<close> eBPF map.\<close>

record TlsBinaryId =
  Id_major :: uint32
  Id_minor :: uint32
  Ino :: uint64

text \<open>\<open>gotls.TlsOffsetsData\<close> is opaque here: the coordinator only stores it.\<close>

type_synonym TlsOffsetsData = nat

record ProbeIdentificationPair =
  EBPFFuncName :: string
  UID :: string

record Probe =
  ProbeIdentificationPair_of :: ProbeIdentificationPair
  BinaryPath :: string
  UprobeOffset :: uint64

text \<open>
  The three keys of \<open>functionToProbes\<close> and \<open>functionsConfig\<close> are string constants of
  package bininspect; only their being three different keys matters.
\<close>

datatype go_function = ReadGoTLSFunc | WriteGoTLSFunc | CloseGoTLSFunc

record FunctionMetadata =
  EntryLocation :: uint64
  ReturnLocations :: "uint64 list"

text \<open>\<open>bininspect.Result\<close>: the field \<open>Functions\<close>, a Go map.\<close>

record Result =
  Functions :: "go_function \<rightharpoonup> FunctionMetadata"

text \<open>Reading a missing key of a Go map gives the zero value.\<close>

definition Functions_at :: "Result \<Rightarrow> go_function \<Rightarrow> FunctionMetadata" where
  "Functions_at result function =
     (case Functions result function of
        None \<Rightarrow> \<lparr>EntryLocation = 0, ReturnLocations = []\<rparr>
      | Some m \<Rightarrow> m)"

subsection \<open>Errors\<close>

text \<open>
  The sentinel errors of the source, errors of the collaborators (\<open>ErrOther\<close>), and
  \<open>fmt.Errorf\<close> with \<open>%w\<close>, which wraps an error under a message.
\<close>

datatype error =
    ErrSelfExcluded
  | ErrInternalDDogProcessRejected
  | ErrPathIsAlreadyRegistered
  | ErrPathNotRegistered
  | ErrNoSymbols
  | ErrKeyNotExist
  | ErrGoTLSNotEnabled
  | ErrOther string
  | Wrapped string error

text \<open>\<open>errors.Is\<close> walks the chain of wrapped errors.\<close>

fun errors_Is :: "error \<Rightarrow> error \<Rightarrow> bool" where
  "errors_Is (Wrapped m e) target = (Wrapped m e = target \<or> errors_Is e target)"
| "errors_Is e target = (e = target)"

subsection \<open>Events\<close>

datatype event =
    EvAttachPID pid
  | EvDetachPID pid
  | EvReadlink string "error + string"
  | EvRegister string pid
  | EvUnregister pid
  | EvClear
  | EvRegistryLog
  | EvMapPut TlsBinaryId "error option"
  | EvMapDelete TlsBinaryId "error option"
  | EvAddHook Probe "error option"
  | EvDetachHook ProbeIdentificationPair "error option"
  | EvLogError string
  | EvCloseDone
  | EvTickerStop
  | EvCleanupExec
  | EvCleanupExit
  | EvMonitorStop
  | EvWgDone
  | EvStopReturns

subsection \<open>The collaborators\<close>

type_synonym os_File = nat
type_synonym elf_File = nat

text \<open>
  What the package calls and does not define: the operating system, the ELF reader, the
  binary analyser, the helpers \<open>inspectionResultToProbeData\<close>, \<open>getUID\<close> and
  \<open>makeReturnUID\<close> of the package's other files, the registry's path resolution, and
  the failures of the manager (\<open>GetMap\<close>, \<open>AddHook\<close>, \<open>DetachHook\<close>) and of the
  eBPF map. A failure of the manager may depend on the probes it holds, a failure of
  \<open>Put\<close> on the map's content. The two \<open>range\<close> fields give the order in which
  Go iterates over a map, which the language leaves open.
\<close>

record env =
  os_Getpid :: int
  filepath_Join :: "string list \<Rightarrow> string"
  os_Readlink :: "string \<Rightarrow> error + string"
  os_Open :: "string \<Rightarrow> error + os_File"
  safeelf_NewFile :: "os_File \<Rightarrow> error + elf_File"
  InspectNewProcessBinary :: "elf_File \<Rightarrow> error + Result"
  inspectionResultToProbeData :: "Result \<Rightarrow> error + TlsOffsetsData"
  getUID :: "PathIdentifier \<Rightarrow> string"
  makeReturnUID :: "string \<Rightarrow> nat \<Rightarrow> string"
  NewFilePath :: "string \<Rightarrow> pid \<Rightarrow> error + FilePath"
  AddHook_err :: "Probe list \<Rightarrow> Probe \<Rightarrow> error option"
  DetachHook_err :: "Probe list \<Rightarrow> ProbeIdentificationPair \<Rightarrow> error option"
  Put_err :: "(TlsBinaryId \<rightharpoonup> TlsOffsetsData) \<Rightarrow> TlsBinaryId \<Rightarrow> error option"
  elapsed_Milliseconds :: int
  range_functionToProbes :: "go_function list"
  range_pids :: "pid list \<Rightarrow> pid list"
  GetMap_err :: "error option"

subsection \<open>The state the callbacks act on\<close>

record ext_state =
  manager_Probes :: "Probe list"
  offsetsDataMap :: "TlsBinaryId \<rightharpoonup> TlsOffsetsData"
  binAnalysisMetric :: int
  binNoSymbolsMetric :: int
  events :: "event list"

definition emit :: "event \<Rightarrow> ext_state \<Rightarrow> ext_state" where
  "emit e s = s\<lparr>events := events s @ [e]\<rparr>"

text \<open>The events a call added: the log of the state after it, without the log before.\<close>

definition new_events :: "ext_state \<Rightarrow> ext_state \<Rightarrow> event list" where
  "new_events s s' = drop (length (events s)) (events s')"

subsection \<open>Device numbers (golang.org/x/sys/unix, Linux)\<close>

definition unix_Major :: "uint64 \<Rightarrow> uint32" where
  "unix_Major dev =
     ucast (drop_bit 8 (dev AND 0x00000000000fff00)) OR
     ucast (drop_bit 32 (dev AND 0xfffff00000000000))"

definition unix_Minor :: "uint64 \<Rightarrow> uint32" where
  "unix_Minor dev =
     ucast (drop_bit 0 (dev AND 0x00000000000000ff)) OR
     ucast (drop_bit 12 (dev AND 0x00000ffffff00000))"

subsection \<open>The eBPF map and the manager\<close>

text \<open>
  \<open>ebpf.Map.Put\<close> creates or overwrites the entry unless the kernel refuses;
  \<open>ebpf.Map.Delete\<close> of a hash map fails when the key is not there.
\<close>

definition Map_Put :: "env \<Rightarrow> TlsBinaryId \<Rightarrow> TlsOffsetsData \<Rightarrow> ext_state \<Rightarrow> error option \<times> ext_state" where
  "Map_Put E k v s =
     (case Put_err E (offsetsDataMap s) k of
        Some err \<Rightarrow> (Some err, emit (EvMapPut k (Some err)) s)
      | None \<Rightarrow> (None, emit (EvMapPut k None) (s\<lparr>offsetsDataMap := (offsetsDataMap s)(k \<mapsto> v)\<rparr>)))"

definition Map_Delete :: "TlsBinaryId \<Rightarrow> ext_state \<Rightarrow> error option \<times> ext_state" where
  "Map_Delete k s =
     (case offsetsDataMap s k of
        None \<Rightarrow> (Some ErrKeyNotExist, emit (EvMapDelete k (Some ErrKeyNotExist)) s)
      | Some v \<Rightarrow> (None, emit (EvMapDelete k None) (s\<lparr>offsetsDataMap := (offsetsDataMap s)(k := None)\<rparr>)))"

text \<open>
  \<open>manager.AddHook\<close> appends the probe to the manager's probes, or fails and leaves
  them as they were. \<open>manager.DetachHook\<close> removes the first probe with the given
  identification pair, or fails and leaves the probes as they were.
\<close>

definition AddHook :: "env \<Rightarrow> Probe \<Rightarrow> ext_state \<Rightarrow> error option \<times> ext_state" where
  "AddHook E newProbe s =
     (case AddHook_err E (manager_Probes s) newProbe of
        Some err \<Rightarrow> (Some err, emit (EvAddHook newProbe (Some err)) s)
      | None \<Rightarrow> (None, emit (EvAddHook newProbe None) (s\<lparr>manager_Probes := manager_Probes s @ [newProbe]\<rparr>)))"

fun remove_probe :: "ProbeIdentificationPair \<Rightarrow> Probe list \<Rightarrow> Probe list" where
  "remove_probe probeID [] = []"
| "remove_probe probeID (p # ps) =
     (if ProbeIdentificationPair_of p = probeID then ps else p # remove_probe probeID ps)"

definition DetachHook :: "env \<Rightarrow> ProbeIdentificationPair \<Rightarrow> ext_state \<Rightarrow> error option \<times> ext_state" where
  "DetachHook E probeID s =
     (case DetachHook_err E (manager_Probes s) probeID of
        Some err \<Rightarrow> (Some err, emit (EvDetachHook probeID (Some err)) s)
      | None \<Rightarrow> (None, emit (EvDetachHook probeID None)
                   (s\<lparr>manager_Probes := remove_probe probeID (manager_Probes s)\<rparr>)))"

subsection \<open>addInspectionResultToMap, removeInspectionResultFromMap\<close>

definition addInspectionResultToMap :: "env \<Rightarrow> PathIdentifier \<Rightarrow> Result \<Rightarrow> ext_state \<Rightarrow> error option \<times> ext_state" where
  "addInspectionResultToMap E binID result s =
     (case inspectionResultToProbeData E result of
        Inl err \<Rightarrow> (Some (Wrapped ''error while parsing inspection result'' err), s)
      | Inr offsetsData \<Rightarrow>
          (let key = \<lparr>Id_major = unix_Major (Dev binID),
                      Id_minor = unix_Minor (Dev binID),
                      Ino = Inode binID\<rparr>
           in case Map_Put E key offsetsData s of
                (Some err, s') \<Rightarrow>
                  (Some (Wrapped ''could not write binary inspection result to map'' err), s')
              | (None, s') \<Rightarrow> (None, s')))"

definition removeInspectionResultFromMap :: "PathIdentifier \<Rightarrow> ext_state \<Rightarrow> ext_state" where
  "removeInspectionResultFromMap binID s =
     (let key = \<lparr>Id_major = unix_Major (Dev binID),
                 Id_minor = unix_Minor (Dev binID),
                 Ino = Inode binID\<rparr>
      in case Map_Delete key s of
           (Some err, s') \<Rightarrow> emit (EvLogError ''could not remove inspection result from map'') s'
         | (None, s') \<Rightarrow> s')"

subsection \<open>The tables functionToProbes and functionsConfig\<close>

record uprobesInfo =
  functionInfo :: string
  returnInfo :: string

definition connReadProbe :: string where "connReadProbe = ''uprobe__crypto_tls_Conn_Read''"
definition connReadRetProbe :: string where "connReadRetProbe = ''uprobe__crypto_tls_Conn_Read__return''"
definition connWriteProbe :: string where "connWriteProbe = ''uprobe__crypto_tls_Conn_Write''"
definition connWriteRetProbe :: string where "connWriteRetProbe = ''uprobe__crypto_tls_Conn_Write__return''"
definition connCloseProbe :: string where "connCloseProbe = ''uprobe__crypto_tls_Conn_Close''"

fun functionToProbes :: "go_function \<Rightarrow> uprobesInfo" where
  "functionToProbes ReadGoTLSFunc = \<lparr>functionInfo = connReadProbe, returnInfo = connReadRetProbe\<rparr>"
| "functionToProbes WriteGoTLSFunc = \<lparr>functionInfo = connWriteProbe, returnInfo = connWriteRetProbe\<rparr>"
| "functionToProbes CloseGoTLSFunc = \<lparr>functionInfo = connCloseProbe, returnInfo = []\<rparr>"

text \<open>\<open>functionsConfig[function].IncludeReturnLocations\<close>.\<close>

fun IncludeReturnLocations :: "go_function \<Rightarrow> bool" where
  "IncludeReturnLocations WriteGoTLSFunc = True"
| "IncludeReturnLocations ReadGoTLSFunc = True"
| "IncludeReturnLocations CloseGoTLSFunc = False"

text \<open>
  A run of \<open>range functionToProbes\<close> visits each of the three keys once, in an order
  the language does not fix.
\<close>

definition range_functionToProbes_ok :: "env \<Rightarrow> bool" where
  "range_functionToProbes_ok E =
     (distinct (range_functionToProbes E) \<and>
      set (range_functionToProbes E) = {ReadGoTLSFunc, WriteGoTLSFunc, CloseGoTLSFunc})"

subsection \<open>attachHooks\<close>

text \<open>The inner loop, over the return locations of one function, \<open>i\<close> the index.\<close>

fun attach_return_hooks ::
  "env \<Rightarrow> uprobesInfo \<Rightarrow> string \<Rightarrow> string \<Rightarrow> nat \<Rightarrow> uint64 list \<Rightarrow>
   ProbeIdentificationPair list \<Rightarrow> ext_state \<Rightarrow>
   (error + ProbeIdentificationPair list) \<times> ext_state" where
  "attach_return_hooks E uprobes uid binPath i [] probeIDs s = (Inr probeIDs, s)"
| "attach_return_hooks E uprobes uid binPath i (offset # rest) probeIDs s =
     (let returnProbeID = \<lparr>EBPFFuncName = returnInfo uprobes, UID = makeReturnUID E uid i\<rparr>;
          newProbe = \<lparr>ProbeIdentificationPair_of = returnProbeID,
                      BinaryPath = binPath, UprobeOffset = offset\<rparr>
      in case AddHook E newProbe s of
           (Some err, s') \<Rightarrow> (Inl (Wrapped ''could not add return hook'' err), s')
         | (None, s') \<Rightarrow>
             attach_return_hooks E uprobes uid binPath (Suc i) rest (probeIDs @ [returnProbeID]) s')"

text \<open>The body of the outer loop for one function: its return probes, then its entry probe.\<close>

definition attach_function ::
  "env \<Rightarrow> Result \<Rightarrow> string \<Rightarrow> string \<Rightarrow> go_function \<Rightarrow>
   ProbeIdentificationPair list \<Rightarrow> ext_state \<Rightarrow>
   (error + ProbeIdentificationPair list) \<times> ext_state" where
  "attach_function E result binPath uid function probeIDs s =
     (let uprobes = functionToProbes function in
      case (if IncludeReturnLocations function
            then (if returnInfo uprobes = []
                  then (Inl (ErrOther ''configured to include return locations but no return uprobes found in config''), s)
                  else attach_return_hooks E uprobes uid binPath 0
                         (ReturnLocations (Functions_at result function)) probeIDs s)
            else (Inr probeIDs, s)) of
        (Inl err, s1) \<Rightarrow> (Inl err, s1)
      | (Inr probeIDs1, s1) \<Rightarrow>
          (if functionInfo uprobes \<noteq> []
           then (let probeID = \<lparr>EBPFFuncName = functionInfo uprobes, UID = uid\<rparr>;
                     newProbe = \<lparr>ProbeIdentificationPair_of = probeID,
                                 BinaryPath = binPath,
                                 UprobeOffset = EntryLocation (Functions_at result function)\<rparr>
                 in case AddHook E newProbe s1 of
                      (Some err, s2) \<Rightarrow> (Inl (Wrapped ''could not add hook'' err), s2)
                    | (None, s2) \<Rightarrow> (Inr (probeIDs1 @ [probeID]), s2))
           else (Inr probeIDs1, s1)))"

fun attach_functions ::
  "env \<Rightarrow> Result \<Rightarrow> string \<Rightarrow> string \<Rightarrow> go_function list \<Rightarrow>
   ProbeIdentificationPair list \<Rightarrow> ext_state \<Rightarrow>
   (error + ProbeIdentificationPair list) \<times> ext_state" where
  "attach_functions E result binPath uid [] probeIDs s = (Inr probeIDs, s)"
| "attach_functions E result binPath uid (function # rest) probeIDs s =
     (case attach_function E result binPath uid function probeIDs s of
        (Inl err, s') \<Rightarrow> (Inl err, s')
      | (Inr probeIDs', s') \<Rightarrow> attach_functions E result binPath uid rest probeIDs' s')"

definition attachHooks ::
  "env \<Rightarrow> Result \<Rightarrow> string \<Rightarrow> PathIdentifier \<Rightarrow> ext_state \<Rightarrow>
   (error + ProbeIdentificationPair list) \<times> ext_state" where
  "attachHooks E result binPath binID s =
     attach_functions E result binPath (getUID E binID) (range_functionToProbes E) [] s"

subsection \<open>The callbacks: registerCBCreator, unregisterCBCreator\<close>

text \<open>
  Each function is the closure its creator returns, applied to a path. Both closures
  share the variable \<open>probeList\<close> of the \<open>AttachPID\<close> call that made them. The
  register callback writes it once, on success; so the callback returns the list
  (\<open>Inr pIDs\<close> for \<open>*probeIDs = pIDs; return nil\<close>), and the unregister callback
  takes the list it finds there as its first argument.
\<close>

definition registerCBCreator ::
  "env \<Rightarrow> FilePath \<Rightarrow> ext_state \<Rightarrow> (error + ProbeIdentificationPair list) \<times> ext_state" where
  "registerCBCreator E filePath s =
     (case os_Open E (HostPath filePath) of
        Inl err \<Rightarrow> (Inl (Wrapped ''could not open file'' err), s)
      | Inr f \<Rightarrow>
     (case safeelf_NewFile E f of
        Inl err \<Rightarrow> (Inl (Wrapped ''file could not be parsed as an ELF file'' err), s)
      | Inr elfFile \<Rightarrow>
     (case InspectNewProcessBinary E elfFile of
        Inl err \<Rightarrow>
          (Inl (Wrapped ''error extracting inspection data'' err),
           if errors_Is err ErrNoSymbols
           then s\<lparr>binNoSymbolsMetric := binNoSymbolsMetric s + 1\<rparr> else s)
      | Inr inspectionResult \<Rightarrow>
     (case addInspectionResultToMap E (ID filePath) inspectionResult s of
        (Some err, s1) \<Rightarrow> (Inl (Wrapped ''failed adding inspection rules'' err), s1)
      | (None, s1) \<Rightarrow>
     (case attachHooks E inspectionResult (HostPath filePath) (ID filePath) s1 of
        (Inl err, s2) \<Rightarrow>
          (Inl (Wrapped ''error while attaching hooks'' err),
           removeInspectionResultFromMap (ID filePath) s2)
      | (Inr pIDs, s2) \<Rightarrow>
          (Inr pIDs, s2\<lparr>binAnalysisMetric := binAnalysisMetric s2 + elapsed_Milliseconds E\<rparr>))))))"

text \<open>One turn of the loop over \<open>*probeIDs\<close> in the unregister callback.\<close>

definition detach_one :: "env \<Rightarrow> ProbeIdentificationPair \<Rightarrow> ext_state \<Rightarrow> ext_state" where
  "detach_one E probeID s =
     (case DetachHook E probeID s of
        (Some err, s') \<Rightarrow> emit (EvLogError ''failed detaching hook'') s'
      | (None, s') \<Rightarrow> s')"

definition unregisterCBCreator ::
  "env \<Rightarrow> ProbeIdentificationPair list \<Rightarrow> FilePath \<Rightarrow> ext_state \<Rightarrow> error option \<times> ext_state" where
  "unregisterCBCreator E probeIDs path s =
     (if length probeIDs = 0 then (None, s)
      else (None, fold (detach_one E) probeIDs (removeInspectionResultFromMap (ID path) s)))"

text \<open>\<open>utils.IgnoreCB\<close>, the callback for a binary that is already tracked: a no-op.\<close>

definition IgnoreCB :: "FilePath \<Rightarrow> ext_state \<Rightarrow> ext_state" where
  "IgnoreCB path s = s"

subsection \<open>The file registry (utils.FileRegistry)\<close>

text \<open>
  An entry of the registry: the file, the processes interested in it, and what the
  first registration produced for the last unregistration to release (for the
  coordinator, the probe list the two closures share).
\<close>

record 'h RegistrationEntry =
  entry_path :: FilePath
  entry_pids :: "pid list"
  entry_handles :: 'h

text \<open>
  The registry also keeps a record of the callbacks it has invoked, oldest first; no
  operation reads it.
\<close>

datatype cb_event =
    FirstRegisterCB PathIdentifier bool
  | AlreadyTrackedCB PathIdentifier
  | LastUnregisterCB PathIdentifier

record 'h FileRegistry =
  entries :: "(PathIdentifier \<times> 'h RegistrationEntry) list"
  callbacks :: "cb_event list"

definition NewFileRegistry :: "'h FileRegistry" where
  "NewFileRegistry = \<lparr>entries = [], callbacks = []\<rparr>"

definition invoked :: "cb_event \<Rightarrow> 'h FileRegistry \<Rightarrow> 'h FileRegistry" where
  "invoked c r = r\<lparr>callbacks := callbacks r @ [c]\<rparr>"

fun set_entry ::
  "PathIdentifier \<Rightarrow> 'h RegistrationEntry \<Rightarrow> (PathIdentifier \<times> 'h RegistrationEntry) list \<Rightarrow>
   (PathIdentifier \<times> 'h RegistrationEntry) list" where
  "set_entry k e [] = [(k, e)]"
| "set_entry k e ((k', e') # rest) =
     (if k' = k then (k, e) # rest else (k', e') # set_entry k e rest)"

fun delete_entry ::
  "PathIdentifier \<Rightarrow> (PathIdentifier \<times> 'h RegistrationEntry) list \<Rightarrow>
   (PathIdentifier \<times> 'h RegistrationEntry) list" where
  "delete_entry k [] = []"
| "delete_entry k ((k', e') # rest) =
     (if k' = k then delete_entry k rest else (k', e') # delete_entry k rest)"

text \<open>
  Modelled from the spec: \<open>Register\<close> of utils.FileRegistry, whose source is not among
  the files. The path is resolved to its identity. With no entry for the identity the
  first-register callback runs; if it fails no entry is created and its error is
  returned, otherwise the entry is created with the process as its only member. With
  an entry that does not yet hold the process, the process is added and the
  already-tracked callback runs. With an entry that holds the process, the duplicate
  condition is returned and nothing changes. The last-unregister callback given to
  \<open>Register\<close> is the one \<open>Unregister\<close> and \<open>Clear\<close> run later; it is their
  argument here.
\<close>

definition Register ::
  "env \<Rightarrow> string \<Rightarrow> pid \<Rightarrow> (FilePath \<Rightarrow> 's \<Rightarrow> (error + 'h) \<times> 's) \<Rightarrow> (FilePath \<Rightarrow> 's \<Rightarrow> 's) \<Rightarrow>
   'h FileRegistry \<Rightarrow> 's \<Rightarrow> error option \<times> 'h FileRegistry \<times> 's" where
  "Register E path p onFirstRegister onAlreadyTracked r s =
     (case NewFilePath E path p of
        Inl err \<Rightarrow> (Some err, r, s)
      | Inr fp \<Rightarrow>
          (case map_of (entries r) (ID fp) of
             None \<Rightarrow>
               (case onFirstRegister fp s of
                  (Inl err, s') \<Rightarrow> (Some err, invoked (FirstRegisterCB (ID fp) False) r, s')
                | (Inr h, s') \<Rightarrow>
                    (None,
                     invoked (FirstRegisterCB (ID fp) True)
                       (r\<lparr>entries := entries r @
                            [(ID fp, \<lparr>entry_path = fp, entry_pids = [p], entry_handles = h\<rparr>)]\<rparr>),
                     s'))
           | Some e \<Rightarrow>
               (if p \<in> set (entry_pids e) then (Some ErrPathIsAlreadyRegistered, r, s)
                else (None,
                      invoked (AlreadyTrackedCB (ID fp))
                        (r\<lparr>entries := set_entry (ID fp) (e\<lparr>entry_pids := entry_pids e @ [p]\<rparr>)
                                        (entries r)\<rparr>),
                      onAlreadyTracked fp s))))"

text \<open>
  Modelled from the spec: \<open>Unregister\<close> of utils.FileRegistry. The entry that holds
  the process is looked up; with none the not-found condition is returned. The process
  is removed from the entry; when no process is left the last-unregister callback runs
  and the entry is deleted.
\<close>

definition Unregister ::
  "pid \<Rightarrow> ('h \<Rightarrow> FilePath \<Rightarrow> 's \<Rightarrow> error option \<times> 's) \<Rightarrow>
   'h FileRegistry \<Rightarrow> 's \<Rightarrow> error option \<times> 'h FileRegistry \<times> 's" where
  "Unregister p onLastUnregister r s =
     (case find (\<lambda>(k, e). p \<in> set (entry_pids e)) (entries r) of
        None \<Rightarrow> (Some ErrPathNotRegistered, r, s)
      | Some (k, e) \<Rightarrow>
          (let pids' = removeAll p (entry_pids e) in
           if pids' = []
           then (None,
                 invoked (LastUnregisterCB k) (r\<lparr>entries := delete_entry k (entries r)\<rparr>),
                 snd (onLastUnregister (entry_handles e) (entry_path e) s))
           else (None, r\<lparr>entries := set_entry k (e\<lparr>entry_pids := pids'\<rparr>) (entries r)\<rparr>, s)))"

text \<open>
  Modelled from the spec: \<open>GetRegisteredProcesses\<close> of utils.FileRegistry, the
  processes of all entries, each once.
\<close>

definition GetRegisteredProcesses :: "'h FileRegistry \<Rightarrow> pid list" where
  "GetRegisteredProcesses r = remdups (concat (map (\<lambda>(k, e). entry_pids e) (entries r)))"

text \<open>
  Modelled from the spec: \<open>Clear\<close> of utils.FileRegistry, which unregisters every
  entry, running the last-unregister callback for each.
\<close>

fun clear_entries ::
  "('h \<Rightarrow> FilePath \<Rightarrow> 's \<Rightarrow> error option \<times> 's) \<Rightarrow> (PathIdentifier \<times> 'h RegistrationEntry) list \<Rightarrow>
   cb_event list \<times> 's \<Rightarrow> cb_event list \<times> 's" where
  "clear_entries onLastUnregister [] (cs, s) = (cs, s)"
| "clear_entries onLastUnregister ((k, e) # rest) (cs, s) =
     clear_entries onLastUnregister rest
       (cs @ [LastUnregisterCB k], snd (onLastUnregister (entry_handles e) (entry_path e) s))"

definition Clear ::
  "('h \<Rightarrow> FilePath \<Rightarrow> 's \<Rightarrow> error option \<times> 's) \<Rightarrow> 'h FileRegistry \<Rightarrow> 's \<Rightarrow> 'h FileRegistry \<times> 's" where
  "Clear onLastUnregister r s =
     (case clear_entries onLastUnregister (entries r) (callbacks r, s) of
        (cs, s') \<Rightarrow> (\<lparr>entries = [], callbacks = cs\<rparr>, s'))"

text \<open>The processes interested in an identity: those of its entry, none without one.\<close>

definition interested :: "'h FileRegistry \<Rightarrow> PathIdentifier \<Rightarrow> pid set" where
  "interested r i = (case map_of (entries r) i of None \<Rightarrow> {} | Some e \<Rightarrow> set (entry_pids e))"

subsection \<open>The pattern of internal processes\<close>

text \<open>
  The regular expressions the source needs: a literal, \<open>.*\<close> (any run of characters
  other than a newline), concatenation and alternation. \<open>residuals r s\<close> lists what
  is left of \<open>s\<close> after each way of matching \<open>r\<close> at its start; \<open>MatchString\<close>
  is Go's unanchored search.
\<close>

datatype regexp = Lit string | DotStar | Concat regexp regexp | Alt regexp regexp

fun dot_star :: "string \<Rightarrow> string list" where
  "dot_star [] = [[]]"
| "dot_star (c # cs) = (c # cs) # (if c = CHR 0x0A then [] else dot_star cs)"

fun residuals :: "regexp \<Rightarrow> string \<Rightarrow> string list" where
  "residuals (Lit l) s = (if take (length l) s = l then [drop (length l) s] else [])"
| "residuals DotStar s = dot_star s"
| "residuals (Concat a b) s = concat (map (residuals b) (residuals a s))"
| "residuals (Alt a b) s = residuals a s @ residuals b s"

fun suffixes_of :: "string \<Rightarrow> string list" where
  "suffixes_of [] = [[]]"
| "suffixes_of (c # cs) = (c # cs) # suffixes_of cs"

definition MatchString :: "regexp \<Rightarrow> string \<Rightarrow> bool" where
  "MatchString r s = list_ex (\<lambda>t. residuals r t \<noteq> []) (suffixes_of s)"

text \<open>\<open>datadog-agent/.*/((process|security|trace)-agent|system-probe|agent)\<close>\<close>

definition internalProcessRegex :: regexp where
  "internalProcessRegex =
     Concat (Lit ''datadog-agent/'')
       (Concat DotStar
          (Concat (Lit ''/'')
             (Alt (Concat (Alt (Lit ''process'') (Alt (Lit ''security'') (Lit ''trace'')))
                          (Lit ''-agent''))
                  (Alt (Lit ''system-probe'') (Lit ''agent'')))))"

subsection \<open>AttachPID, DetachPID, GoTLSAttachPID\<close>

record goTLSProgram =
  cfg_GoTLSExcludeSelf :: bool
  procRoot :: string
  registry :: "ProbeIdentificationPair list FileRegistry"
  ext :: ext_state

definition record_event :: "event \<Rightarrow> goTLSProgram \<Rightarrow> goTLSProgram" where
  "record_event e p = p\<lparr>ext := emit e (ext p)\<rparr>"

text \<open>\<open>strconv.FormatUint(n, 10)\<close>.\<close>

fun FormatUint :: "nat \<Rightarrow> string" where
  "FormatUint n =
     (if n < 10 then [''0123456789'' ! n]
      else FormatUint (n div 10) @ [''0123456789'' ! (n mod 10)])"

declare FormatUint.simps [simp del]

definition exePath_of :: "env \<Rightarrow> goTLSProgram \<Rightarrow> pid \<Rightarrow> string" where
  "exePath_of E p pid = filepath_Join E [procRoot p, FormatUint (unat pid), ''exe'']"

definition AttachPID :: "env \<Rightarrow> pid \<Rightarrow> goTLSProgram \<Rightarrow> error option \<times> goTLSProgram" where
  "AttachPID E pid p0 =
     (let p = record_event (EvAttachPID pid) p0 in
      if cfg_GoTLSExcludeSelf p \<and> pid = word_of_int (os_Getpid E)
      then (Some ErrSelfExcluded, p)
      else
        (let exePath = exePath_of E p pid in
         case os_Readlink E exePath of
           Inl err \<Rightarrow> (Some err, record_event (EvReadlink exePath (Inl err)) p)
         | Inr binPath \<Rightarrow>
             (let p1 = record_event (EvReadlink exePath (Inr binPath)) p in
              if MatchString internalProcessRegex binPath
              then (Some ErrInternalDDogProcessRejected, p1)
              else
                (let p2 = record_event (EvRegister binPath pid) p1 in
                 case Register E binPath pid (registerCBCreator E) IgnoreCB (registry p2) (ext p2) of
                   (res, r', s') \<Rightarrow> (res, p2\<lparr>registry := r', ext := s'\<rparr>)))))"

definition DetachPID :: "env \<Rightarrow> pid \<Rightarrow> goTLSProgram \<Rightarrow> error option \<times> goTLSProgram" where
  "DetachPID E pid p0 =
     (let p = record_event (EvUnregister pid) (record_event (EvDetachPID pid) p0) in
      case Unregister pid (unregisterCBCreator E) (registry p) (ext p) of
        (res, r', s') \<Rightarrow> (res, p\<lparr>registry := r', ext := s'\<rparr>))"

definition handleProcessExit :: "env \<Rightarrow> pid \<Rightarrow> goTLSProgram \<Rightarrow> goTLSProgram" where
  "handleProcessExit E pid p = snd (DetachPID E pid p)"

definition handleProcessStart :: "env \<Rightarrow> pid \<Rightarrow> goTLSProgram \<Rightarrow> goTLSProgram" where
  "handleProcessStart E pid p = snd (AttachPID E pid p)"

text \<open>\<open>goTLSSpec.Instance\<close> is the program, or nil when Go-TLS is not enabled.\<close>

definition GoTLSAttachPID ::
  "env \<Rightarrow> pid \<Rightarrow> goTLSProgram option \<Rightarrow> error option \<times> goTLSProgram option" where
  "GoTLSAttachPID E pid Instance =
     (case Instance of
        None \<Rightarrow> (Some ErrGoTLSNotEnabled, None)
      | Some p \<Rightarrow>
          (case AttachPID E pid p of
             (None, p') \<Rightarrow> (None, Some p')
           | (Some err, p') \<Rightarrow>
               (if errors_Is err ErrPathIsAlreadyRegistered then (None, Some p')
                else (Some err, Some p'))))"

subsection \<open>sync\<close>

text \<open>
  \<open>procs\<close> is what \<open>kernel.WithAllProcs\<close> enumerates, in its order. The deletion
  candidates are a Go map used as a set: a list without repetition, \<open>delete\<close> being
  \<open>removeAll\<close>.
\<close>

fun sync_visit :: "env \<Rightarrow> int list \<Rightarrow> pid list \<times> goTLSProgram \<Rightarrow> pid list \<times> goTLSProgram" where
  "sync_visit E [] (deletionCandidates, p) = (deletionCandidates, p)"
| "sync_visit E (pid # rest) (deletionCandidates, p) =
     (if word_of_int pid \<in> set deletionCandidates
      then sync_visit E rest (removeAll (word_of_int pid) deletionCandidates, p)
      else sync_visit E rest (deletionCandidates, snd (AttachPID E (word_of_int pid) p)))"

definition sync :: "env \<Rightarrow> int list \<Rightarrow> goTLSProgram \<Rightarrow> goTLSProgram" where
  "sync E procs p =
     (case sync_visit E procs (GetRegisteredProcesses (registry p), p) of
        (deletionCandidates, p') \<Rightarrow>
          fold (handleProcessExit E) (range_pids E deletionCandidates) p')"

subsection \<open>PreStart, the main goroutine, Stop\<close>

text \<open>
  \<open>PreStart\<close> subscribes the two handlers to the process monitor and starts a
  goroutine that loops on a \<open>select\<close> between the channel \<open>done\<close> and a ticker, and
  on leaving runs its deferred block. \<open>Stop\<close> closes \<open>done\<close> and waits on the wait
  group. The system below is the program with the channel, the wait group's counter,
  the two subscriptions, the handler calls the monitor has made that have not run yet,
  and the position of each of the two goroutines.
\<close>

datatype deferred_call =
  DTickerStop | DCleanupExec | DCleanupExit | DMonitorStop | DRegistryClear | DWgDone

datatype loop_pc = LoopNotStarted | LoopSelect | LoopDeferred deferred_call | LoopReturned

datatype stop_pc = StopNotCalled | StopWaiting | StopReturned

datatype handler_call = HandleProcessStart pid | HandleProcessExit pid

record system =
  prog :: goTLSProgram
  done_closed :: bool
  wg_counter :: nat
  exec_subscribed :: bool
  exit_subscribed :: bool
  in_flight :: "handler_call list"
  loop_at :: loop_pc
  stop_at :: stop_pc

definition sys_event :: "event \<Rightarrow> system \<Rightarrow> system" where
  "sys_event e sys = sys\<lparr>prog := record_event e (prog sys)\<rparr>"

text \<open>\<open>newGoTLS\<close>: the program as the factory makes it, over the state it finds.\<close>

definition newGoTLS :: "bool \<Rightarrow> string \<Rightarrow> ext_state \<Rightarrow> system" where
  "newGoTLS excludeSelf root s =
     \<lparr>prog = \<lparr>cfg_GoTLSExcludeSelf = excludeSelf, procRoot = root,
              registry = NewFileRegistry, ext = s\<rparr>,
      done_closed = False, wg_counter = 0,
      exec_subscribed = False, exit_subscribed = False, in_flight = [],
      loop_at = LoopNotStarted, stop_at = StopNotCalled\<rparr>"

definition PreStart :: "env \<Rightarrow> system \<Rightarrow> error option \<times> system" where
  "PreStart E sys =
     (case GetMap_err E of
        Some err \<Rightarrow> (Some (ErrOther ''could not get offsets_data map''), sys)
      | None \<Rightarrow>
          (None, sys\<lparr>exec_subscribed := True, exit_subscribed := True,
                     wg_counter := wg_counter sys + 1, loop_at := LoopSelect\<rparr>))"

text \<open>
  What can happen next. The goroutine that called \<open>Stop\<close> takes its next step; the
  loop's \<open>select\<close> takes the case of \<open>done\<close> or the case of the ticker (with the
  processes \<open>sync\<close> then enumerates), whichever is ready; the deferred block runs its
  next call; the process monitor calls a subscribed handler for a start or an exit; a
  handler call in flight runs. A handler and a sweep each run as one step.
\<close>

datatype action =
    StopStep
  | SelectDone
  | SelectTick "int list"
  | DeferredStep
  | ExecNotification pid
  | ExitNotification pid
  | HandlerRuns nat

fun run_handler :: "env \<Rightarrow> handler_call \<Rightarrow> goTLSProgram \<Rightarrow> goTLSProgram" where
  "run_handler E (HandleProcessStart pid) p = handleProcessStart E pid p"
| "run_handler E (HandleProcessExit pid) p = handleProcessExit E pid p"

text \<open>
  Modelled from the spec: the process monitor, whose package is not among the files. It
  calls a handler only while the handler is subscribed, a call is in flight until the
  handler has run, and its \<open>Stop\<close> waits for the calls in flight to finish: in the
  deferred block below, which runs one call and moves to the next, the step of
  \<open>procMonitor.Stop\<close> is taken only when no call is left.
\<close>

fun run_deferred :: "env \<Rightarrow> deferred_call \<Rightarrow> system \<Rightarrow> system" where
  "run_deferred E DTickerStop sys =
     (sys_event EvTickerStop sys)\<lparr>loop_at := LoopDeferred DCleanupExec\<rparr>"
| "run_deferred E DCleanupExec sys =
     (sys_event EvCleanupExec sys)\<lparr>exec_subscribed := False, loop_at := LoopDeferred DCleanupExit\<rparr>"
| "run_deferred E DCleanupExit sys =
     (sys_event EvCleanupExit sys)\<lparr>exit_subscribed := False, loop_at := LoopDeferred DMonitorStop\<rparr>"
| "run_deferred E DMonitorStop sys =
     (if in_flight sys = []
      then (sys_event EvMonitorStop sys)\<lparr>loop_at := LoopDeferred DRegistryClear\<rparr>
      else sys)"
| "run_deferred E DRegistryClear sys =
     (let p = record_event EvClear (prog sys) in
      case Clear (unregisterCBCreator E) (registry p) (ext p) of
        (r', s') \<Rightarrow> sys\<lparr>prog := p\<lparr>registry := r', ext := s'\<rparr>, loop_at := LoopDeferred DWgDone\<rparr>)"
| "run_deferred E DWgDone sys =
     (sys_event EvWgDone sys)\<lparr>wg_counter := wg_counter sys - 1, loop_at := LoopReturned\<rparr>"

fun step :: "env \<Rightarrow> action \<Rightarrow> system \<Rightarrow> system" where
  "step E StopStep sys =
     (case stop_at sys of
        StopNotCalled \<Rightarrow> (sys_event EvCloseDone sys)\<lparr>done_closed := True, stop_at := StopWaiting\<rparr>
      | StopWaiting \<Rightarrow>
          (if wg_counter sys = 0 then (sys_event EvStopReturns sys)\<lparr>stop_at := StopReturned\<rparr>
           else sys)
      | StopReturned \<Rightarrow> sys)"
| "step E SelectDone sys =
     (if loop_at sys = LoopSelect \<and> done_closed sys
      then sys\<lparr>loop_at := LoopDeferred DTickerStop\<rparr> else sys)"
| "step E (SelectTick procs) sys =
     (if loop_at sys = LoopSelect
      then sys\<lparr>prog := record_event EvRegistryLog (sync E procs (prog sys))\<rparr> else sys)"
| "step E DeferredStep sys =
     (case loop_at sys of LoopDeferred d \<Rightarrow> run_deferred E d sys | _ \<Rightarrow> sys)"
| "step E (ExecNotification pid) sys =
     (if exec_subscribed sys
      then sys\<lparr>in_flight := in_flight sys @ [HandleProcessStart pid]\<rparr> else sys)"
| "step E (ExitNotification pid) sys =
     (if exit_subscribed sys
      then sys\<lparr>in_flight := in_flight sys @ [HandleProcessExit pid]\<rparr> else sys)"
| "step E (HandlerRuns n) sys =
     (if n < length (in_flight sys)
      then sys\<lparr>prog := run_handler E (in_flight sys ! n) (prog sys),
               in_flight := take n (in_flight sys) @ drop (Suc n) (in_flight sys)\<rparr>
      else sys)"

definition run :: "env \<Rightarrow> action list \<Rightarrow> system \<Rightarrow> system" where
  "run E schedule sys = fold (step E) schedule sys"

text \<open>The events of starting and stopping, among all events.\<close>

fun is_lifecycle :: "event \<Rightarrow> bool" where
  "is_lifecycle EvCloseDone = True"
| "is_lifecycle EvTickerStop = True"
| "is_lifecycle EvCleanupExec = True"
| "is_lifecycle EvCleanupExit = True"
| "is_lifecycle EvMonitorStop = True"
| "is_lifecycle EvClear = True"
| "is_lifecycle EvWgDone = True"
| "is_lifecycle EvStopReturns = True"
| "is_lifecycle e = False"

text \<open>The calls of \<open>AttachPID\<close> and \<open>DetachPID\<close>, among all events.\<close>

fun is_call :: "event \<Rightarrow> bool" where
  "is_call (EvAttachPID pid) = True"
| "is_call (EvDetachPID pid) = True"
| "is_call e = False"

section \<open>Notions used in the statements\<close>

text \<open>The key that \<open>addInspectionResultToMap\<close> and \<open>removeInspectionResultFromMap\<close> build.\<close>

definition binary_key :: "PathIdentifier \<Rightarrow> TlsBinaryId" where
  "binary_key binID =
     \<lparr>Id_major = unix_Major (Dev binID), Id_minor = unix_Minor (Dev binID), Ino = Inode binID\<rparr>"

text \<open>The probes \<open>DetachHook\<close> was called on, in the order of the calls.\<close>

fun detached :: "event list \<Rightarrow> ProbeIdentificationPair list" where
  "detached [] = []"
| "detached (EvDetachHook probeID r # es) = probeID # detached es"
| "detached (e # es) = detached es"

fun detach_failed :: "event \<Rightarrow> bool" where
  "detach_failed (EvDetachHook probeID (Some err)) = True"
| "detach_failed e = False"

text \<open>The manager's probes after one call of \<open>DetachHook\<close>.\<close>

definition surviving :: "env \<Rightarrow> ProbeIdentificationPair \<Rightarrow> Probe list \<Rightarrow> Probe list" where
  "surviving E probeID ps =
     (if DetachHook_err E ps probeID = None then remove_probe probeID ps else ps)"

text \<open>The events of the eBPF map, the manager and the logger.\<close>

fun is_effect :: "event \<Rightarrow> bool" where
  "is_effect (EvMapPut k r) = True"
| "is_effect (EvMapDelete k r) = True"
| "is_effect (EvAddHook p r) = True"
| "is_effect (EvDetachHook i r) = True"
| "is_effect (EvLogError m) = True"
| "is_effect e = False"

definition grows :: "ext_state \<Rightarrow> ext_state \<Rightarrow> bool" where
  "grows s s' = (\<exists>evs. events s' = events s @ evs \<and> list_all is_effect evs)"

definition self_excluded :: "env \<Rightarrow> goTLSProgram \<Rightarrow> pid \<Rightarrow> bool" where
  "self_excluded E p pid = (cfg_GoTLSExcludeSelf p \<and> pid = word_of_int (os_Getpid E))"

definition calls_of :: "event list \<Rightarrow> event list" where
  "calls_of evs = filter is_call evs"

definition quiet :: "event \<Rightarrow> bool" where
  "quiet e = (\<not> is_call e \<and> \<not> is_lifecycle e)"

text \<open>
  The sweep as the specification words it, on the process identifiers alone: each
  visible process that is a candidate is struck from the candidates, each other one is
  attached. The result is the processes attached, in order, and the candidates left.
\<close>

fun sweep :: "pid list \<Rightarrow> pid list \<Rightarrow> pid list \<times> pid list" where
  "sweep candidates [] = ([], candidates)"
| "sweep candidates (q # qs) =
     (if q \<in> set candidates then sweep (removeAll q candidates) qs
      else (case sweep candidates qs of (attached, remaining) \<Rightarrow> (q # attached, remaining)))"

subsection \<open>Concrete collaborators and states\<close>

definition join_slash :: "string list \<Rightarrow> string" where
  "join_slash xs = foldr (\<lambda>a b. if b = [] then a else a @ ''/'' @ b) xs []"

definition result0 :: Result where
  "result0 = \<lparr>Functions =
     [ReadGoTLSFunc \<mapsto> \<lparr>EntryLocation = 0x1000, ReturnLocations = [0x1010, 0x1020]\<rparr>,
      WriteGoTLSFunc \<mapsto> \<lparr>EntryLocation = 0x2000, ReturnLocations = [0x2010]\<rparr>,
      CloseGoTLSFunc \<mapsto> \<lparr>EntryLocation = 0x3000, ReturnLocations = []\<rparr>]\<rparr>"

definition binID0 :: PathIdentifier where
  "binID0 = \<lparr>Dev = 0x803, Inode = 77\<rparr>"

text \<open>
  A host where every call succeeds: the agent is process 1, processes 42 and 43 run
  \<open>/usr/bin/app\<close>, process 7 is the trace agent, and no other process exists.
\<close>

definition env0 :: env where
  "env0 =
     \<lparr>os_Getpid = 1,
      filepath_Join = join_slash,
      os_Readlink = (\<lambda>path.
         if path = ''/proc/42/exe'' \<or> path = ''/proc/43/exe'' then Inr ''/usr/bin/app''
         else if path = ''/proc/7/exe'' then Inr ''/opt/datadog-agent/embedded/bin/trace-agent''
         else Inl (ErrOther ''no such file or directory'')),
      os_Open = (\<lambda>path. Inr 3),
      safeelf_NewFile = (\<lambda>f. Inr 4),
      InspectNewProcessBinary = (\<lambda>f. Inr result0),
      inspectionResultToProbeData = (\<lambda>r. Inr 5),
      getUID = (\<lambda>binID. ''u77''),
      makeReturnUID = (\<lambda>uid i. uid @ ''_'' @ FormatUint i),
      NewFilePath = (\<lambda>path p. Inr \<lparr>HostPath = ''/host'' @ path, ID = binID0\<rparr>),
      AddHook_err = (\<lambda>probes newProbe. None),
      DetachHook_err = (\<lambda>probes probeID. None),
      Put_err = (\<lambda>m k. None),
      elapsed_Milliseconds = 12,
      range_functionToProbes = [ReadGoTLSFunc, WriteGoTLSFunc, CloseGoTLSFunc],
      range_pids = (\<lambda>pids. pids),
      GetMap_err = None\<rparr>"

text \<open>The same host, where the manager refuses the entry probe of \<open>Read\<close>.\<close>

definition env_hook_fails :: env where
  "env_hook_fails =
     env0\<lparr>AddHook_err := (\<lambda>probes newProbe.
        if EBPFFuncName (ProbeIdentificationPair_of newProbe) = connReadProbe
        then Some (ErrOther ''invalid argument'') else None)\<rparr>"

text \<open>The same host, where the binaries have no symbols, or are not supported.\<close>

definition env_no_symbols :: env where
  "env_no_symbols = env0\<lparr>InspectNewProcessBinary := (\<lambda>f. Inl ErrNoSymbols)\<rparr>"

definition env_other_failure :: env where
  "env_other_failure =
     env0\<lparr>InspectNewProcessBinary := (\<lambda>f. Inl (ErrOther ''unsupported binary''))\<rparr>"

text \<open>The same host, where the manager fails to detach the entry probe of \<open>Read\<close>.\<close>

definition env_detach_fails :: env where
  "env_detach_fails =
     env0\<lparr>DetachHook_err := (\<lambda>probes probeID.
        if EBPFFuncName probeID = connReadProbe then Some (ErrOther ''device or resource busy'')
        else None)\<rparr>"

definition ext0 :: ext_state where
  "ext0 = \<lparr>manager_Probes = [], offsetsDataMap = Map.empty,
           binAnalysisMetric = 0, binNoSymbolsMetric = 0, events = []\<rparr>"

definition path0 :: FilePath where
  "path0 = \<lparr>HostPath = ''/host/usr/bin/app'', ID = binID0\<rparr>"

text \<open>The probes of \<open>/usr/bin/app\<close> on this host.\<close>

definition probeIDs0 :: "ProbeIdentificationPair list" where
  "probeIDs0 =
     [\<lparr>EBPFFuncName = connReadRetProbe, UID = ''u77_0''\<rparr>,
      \<lparr>EBPFFuncName = connReadRetProbe, UID = ''u77_1''\<rparr>,
      \<lparr>EBPFFuncName = connReadProbe, UID = ''u77''\<rparr>,
      \<lparr>EBPFFuncName = connWriteRetProbe, UID = ''u77_0''\<rparr>,
      \<lparr>EBPFFuncName = connWriteProbe, UID = ''u77''\<rparr>,
      \<lparr>EBPFFuncName = connCloseProbe, UID = ''u77''\<rparr>]"

text \<open>The program before any process, after process 42, and after processes 42 and 43.\<close>

definition prog0 :: goTLSProgram where
  "prog0 = \<lparr>cfg_GoTLSExcludeSelf = True, procRoot = ''/proc'',
            registry = NewFileRegistry, ext = ext0\<rparr>"

definition prog1 :: goTLSProgram where
  "prog1 = snd (AttachPID env0 42 prog0)"

definition prog2 :: goTLSProgram where
  "prog2 = snd (AttachPID env0 43 prog1)"

text \<open>
  A call on the registry, and a run of calls from the empty registry. The callbacks are
  the arguments of the run: any functions on any state, failing when they choose.
\<close>

datatype reg_op = OpRegister string pid | OpUnregister pid

fun reg_step ::
  "env \<Rightarrow> (FilePath \<Rightarrow> 's \<Rightarrow> (error + 'h) \<times> 's) \<Rightarrow> (FilePath \<Rightarrow> 's \<Rightarrow> 's) \<Rightarrow>
   ('h \<Rightarrow> FilePath \<Rightarrow> 's \<Rightarrow> error option \<times> 's) \<Rightarrow> reg_op \<Rightarrow>
   'h FileRegistry \<times> 's \<Rightarrow> 'h FileRegistry \<times> 's" where
  "reg_step E onFirst onTracked onLast (OpRegister path p) (r, s) =
     snd (Register E path p onFirst onTracked r s)"
| "reg_step E onFirst onTracked onLast (OpUnregister p) (r, s) =
     snd (Unregister p onLast r s)"

definition reg_run ::
  "env \<Rightarrow> (FilePath \<Rightarrow> 's \<Rightarrow> (error + 'h) \<times> 's) \<Rightarrow> (FilePath \<Rightarrow> 's \<Rightarrow> 's) \<Rightarrow>
   ('h \<Rightarrow> FilePath \<Rightarrow> 's \<Rightarrow> error option \<times> 's) \<Rightarrow> reg_op list \<Rightarrow> 's \<Rightarrow>
   'h FileRegistry \<times> 's" where
  "reg_run E onFirst onTracked onLast ops s0 =
     fold (reg_step E onFirst onTracked onLast) ops (NewFileRegistry, s0)"

text \<open>The callbacks a call invoked, and among callbacks those of one identity.\<close>

definition new_callbacks :: "'h FileRegistry \<Rightarrow> 'h FileRegistry \<Rightarrow> cb_event list" where
  "new_callbacks r r' = drop (length (callbacks r)) (callbacks r')"

fun is_first_register :: "PathIdentifier \<Rightarrow> cb_event \<Rightarrow> bool" where
  "is_first_register i (FirstRegisterCB j ok) = (j = i)"
| "is_first_register i c = False"

fun is_last_unregister :: "PathIdentifier \<Rightarrow> cb_event \<Rightarrow> bool" where
  "is_last_unregister i (LastUnregisterCB j) = (j = i)"
| "is_last_unregister i c = False"

text \<open>
  The steps of a run at which the interested processes of an identity go from none to
  some, and from some to none.
\<close>

definition goes_up :: "'h FileRegistry \<Rightarrow> 'h FileRegistry \<Rightarrow> PathIdentifier \<Rightarrow> bool" where
  "goes_up r r' i = (interested r i = {} \<and> interested r' i \<noteq> {})"

definition goes_down :: "'h FileRegistry \<Rightarrow> 'h FileRegistry \<Rightarrow> PathIdentifier \<Rightarrow> bool" where
  "goes_down r r' i = (interested r i \<noteq> {} \<and> interested r' i = {})"

definition transitions ::
  "('h FileRegistry \<Rightarrow> 'h FileRegistry \<Rightarrow> PathIdentifier \<Rightarrow> bool) \<Rightarrow>
   env \<Rightarrow> (FilePath \<Rightarrow> 's \<Rightarrow> (error + 'h) \<times> 's) \<Rightarrow> (FilePath \<Rightarrow> 's \<Rightarrow> 's) \<Rightarrow>
   ('h \<Rightarrow> FilePath \<Rightarrow> 's \<Rightarrow> error option \<times> 's) \<Rightarrow> reg_op list \<Rightarrow> 's \<Rightarrow>
   PathIdentifier \<Rightarrow> nat" where
  "transitions dir E onFirst onTracked onLast ops s0 i =
     length [k \<leftarrow> [0..<length ops].
               dir (fst (reg_run E onFirst onTracked onLast (take k ops) s0))
                   (fst (reg_run E onFirst onTracked onLast (take (Suc k) ops) s0)) i]"

text \<open>What holds of every registry a run reaches.\<close>

definition reg_inv :: "'h FileRegistry \<Rightarrow> bool" where
  "reg_inv r = (distinct (map fst (entries r)) \<and> list_all (\<lambda>(k, e). entry_pids e \<noteq> []) (entries r))"

text \<open>
  What one call does to one identity: the successful first-register callbacks it
  invoked for the identity are one when its interested processes went from none to
  some, and none otherwise; the last-unregister callbacks are one when they went from
  some to none, and none otherwise; and at a step from none to some no other
  first-register callback for the identity was invoked.
\<close>

definition step_ok :: "'h FileRegistry \<Rightarrow> 'h FileRegistry \<Rightarrow> cb_event list \<Rightarrow> bool" where
  "step_ok r r' cbs =
     (\<forall>i. filter (\<lambda>c. c = FirstRegisterCB i True) cbs =
            (if goes_up r r' i then [FirstRegisterCB i True] else [])
        \<and> filter (is_last_unregister i) cbs =
            (if goes_down r r' i then [LastUnregisterCB i] else [])
        \<and> (goes_up r r' i \<longrightarrow> filter (is_first_register i) cbs = [FirstRegisterCB i True]))"

text \<open>Callbacks that count their invocations, for a run on the host above.\<close>

definition counting_first :: "FilePath \<Rightarrow> nat \<times> nat \<Rightarrow> (error + unit) \<times> nat \<times> nat" where
  "counting_first fp c = (Inr (), (Suc (fst c), snd c))"

definition counting_tracked :: "FilePath \<Rightarrow> nat \<times> nat \<Rightarrow> nat \<times> nat" where
  "counting_tracked fp c = c"

definition counting_last :: "unit \<Rightarrow> FilePath \<Rightarrow> nat \<times> nat \<Rightarrow> error option \<times> nat \<times> nat" where
  "counting_last h fp c = (None, (fst c, Suc (snd c)))"

definition run3 :: "reg_op list" where
  "run3 = [OpRegister ''/usr/bin/app'' 42, OpRegister ''/usr/bin/app'' 43, OpUnregister 42]"

definition lifecycle_of :: "event list \<Rightarrow> event list" where
  "lifecycle_of evs = filter is_lifecycle evs"

text \<open>What follows the first occurrence of an event.\<close>

fun after_event :: "event \<Rightarrow> event list \<Rightarrow> event list" where
  "after_event e [] = []"
| "after_event e (x # xs) = (if x = e then xs else after_event e xs)"

text \<open>The events of stopping that the main goroutine has logged when it is at a position.\<close>

fun loop_progress :: "loop_pc \<Rightarrow> event list" where
  "loop_progress LoopNotStarted = []"
| "loop_progress LoopSelect = []"
| "loop_progress (LoopDeferred DTickerStop) = []"
| "loop_progress (LoopDeferred DCleanupExec) = [EvTickerStop]"
| "loop_progress (LoopDeferred DCleanupExit) = [EvTickerStop, EvCleanupExec]"
| "loop_progress (LoopDeferred DMonitorStop) = [EvTickerStop, EvCleanupExec, EvCleanupExit]"
| "loop_progress (LoopDeferred DRegistryClear) =
     [EvTickerStop, EvCleanupExec, EvCleanupExit, EvMonitorStop]"
| "loop_progress (LoopDeferred DWgDone) =
     [EvTickerStop, EvCleanupExec, EvCleanupExit, EvMonitorStop, EvClear]"
| "loop_progress LoopReturned =
     [EvTickerStop, EvCleanupExec, EvCleanupExit, EvMonitorStop, EvClear, EvWgDone]"

fun exec_unsubscribed :: "loop_pc \<Rightarrow> bool" where
  "exec_unsubscribed LoopNotStarted = False"
| "exec_unsubscribed LoopSelect = False"
| "exec_unsubscribed (LoopDeferred DTickerStop) = False"
| "exec_unsubscribed (LoopDeferred DCleanupExec) = False"
| "exec_unsubscribed lp = True"

fun unsubscribed :: "loop_pc \<Rightarrow> bool" where
  "unsubscribed (LoopDeferred DCleanupExit) = False"
| "unsubscribed lp = exec_unsubscribed lp"

fun monitor_stopped :: "loop_pc \<Rightarrow> bool" where
  "monitor_stopped (LoopDeferred DRegistryClear) = True"
| "monitor_stopped (LoopDeferred DWgDone) = True"
| "monitor_stopped LoopReturned = True"
| "monitor_stopped lp = False"

fun cleared :: "loop_pc \<Rightarrow> bool" where
  "cleared (LoopDeferred DWgDone) = True"
| "cleared LoopReturned = True"
| "cleared lp = False"

definition log_shape :: "stop_pc \<Rightarrow> loop_pc \<Rightarrow> event list \<Rightarrow> bool" where
  "log_shape st lp evs =
     (lifecycle_of evs =
        (if st = StopNotCalled then [] else [EvCloseDone]) @ loop_progress lp @
        (if st = StopReturned then [EvStopReturns] else [])
      \<and> (monitor_stopped lp \<longrightarrow> calls_of (after_event EvMonitorStop evs) = []))"

text \<open>What holds of every state a started program reaches; \<open>e0\<close> is the log at the start.\<close>

definition sys_inv :: "event list \<Rightarrow> system \<Rightarrow> bool" where
  "sys_inv e0 sys =
     (loop_at sys \<noteq> LoopNotStarted
      \<and> done_closed sys = (stop_at sys \<noteq> StopNotCalled)
      \<and> (stop_at sys = StopNotCalled \<longrightarrow> loop_at sys = LoopSelect)
      \<and> (stop_at sys = StopReturned \<longrightarrow> loop_at sys = LoopReturned)
      \<and> wg_counter sys = (if loop_at sys = LoopReturned then 0 else 1)
      \<and> exec_subscribed sys = (\<not> exec_unsubscribed (loop_at sys))
      \<and> exit_subscribed sys = (\<not> unsubscribed (loop_at sys))
      \<and> (monitor_stopped (loop_at sys) \<longrightarrow> in_flight sys = [])
      \<and> (cleared (loop_at sys) \<longrightarrow> entries (registry (prog sys)) = [])
      \<and> (\<exists>evs. events (ext (prog sys)) = e0 @ evs
             \<and> log_shape (stop_at sys) (loop_at sys) evs))"

text \<open>
  A run on the host above: process 42 starts and its handler runs, a sweep finds it
  alive, process 43 starts, \<open>Stop\<close> is called, the handler of 43 runs after both
  handlers are unsubscribed, and both goroutines run to their end. Neither process
  exits. The first schedule stops where \<open>Clear\<close> is the next deferred call.
\<close>

definition schedule0_until_clear :: "action list" where
  "schedule0_until_clear =
     [ExecNotification 42, HandlerRuns 0, SelectTick [42], ExecNotification 43, StopStep,
      SelectDone, DeferredStep, DeferredStep, DeferredStep, HandlerRuns 0, DeferredStep]"

definition schedule0 :: "action list" where
  "schedule0 = schedule0_until_clear @ [DeferredStep, DeferredStep, StopStep]"

definition sys_started :: system where
  "sys_started = snd (PreStart env0 (newGoTLS True ''/proc'' ext0))"

text \<open>
  A run in which process 42 starts and its handler runs, \<open>Stop\<close> is called, and both
  goroutines run to their end; the process never exits.
\<close>

definition schedule_busy :: "action list" where
  "schedule_busy =
     [ExecNotification 42, HandlerRuns 0, StopStep, SelectDone, DeferredStep, DeferredStep,
      DeferredStep, DeferredStep, DeferredStep, DeferredStep, StopStep]"

section \<open>Properties\<close>

subsection \<open>The lookup table\<close>

lemma new_events_app: "events s' = events s @ evs \<Longrightarrow> new_events s s' = evs"
  by (simp add: new_events_def)

lemma events_emit [simp]: "events (emit e s) = events s @ [e]"
  by (simp add: emit_def)

lemma emit_fields [simp]:
  "manager_Probes (emit e s) = manager_Probes s"
  "offsetsDataMap (emit e s) = offsetsDataMap s"
  "binAnalysisMetric (emit e s) = binAnalysisMetric s"
  "binNoSymbolsMetric (emit e s) = binNoSymbolsMetric s"
  by (simp_all add: emit_def)

lemma add_events:
  assumes "inspectionResultToProbeData E result = Inr d"
  shows "events (snd (addInspectionResultToMap E binID result s)) =
         events s @ [EvMapPut (binary_key binID) (Put_err E (offsetsDataMap s) (binary_key binID))]"
  using assms
  by (simp add: addInspectionResultToMap_def Map_Put_def binary_key_def Let_def split: option.splits)

lemma add_ok:
  assumes "addInspectionResultToMap E binID result s = (None, s1)"
  shows "\<exists>d. inspectionResultToProbeData E result = Inr d \<and>
         s1 = emit (EvMapPut (binary_key binID) None)
                (s\<lparr>offsetsDataMap := (offsetsDataMap s)(binary_key binID \<mapsto> d)\<rparr>)"
  using assms
  by (auto simp add: addInspectionResultToMap_def Map_Put_def binary_key_def Let_def
      split: option.splits sum.splits)

lemma remove_present:
  assumes "offsetsDataMap s (binary_key binID) = Some v"
  shows "removeInspectionResultFromMap binID s =
         emit (EvMapDelete (binary_key binID) None)
           (s\<lparr>offsetsDataMap := (offsetsDataMap s)(binary_key binID := None)\<rparr>)"
  using assms
  by (simp add: removeInspectionResultFromMap_def Map_Delete_def binary_key_def Let_def)

lemma remove_absent:
  assumes "offsetsDataMap s (binary_key binID) = None"
  shows "removeInspectionResultFromMap binID s =
         emit (EvLogError ''could not remove inspection result from map'')
           (emit (EvMapDelete (binary_key binID) (Some ErrKeyNotExist)) s)"
  using assms
  by (simp add: removeInspectionResultFromMap_def Map_Delete_def binary_key_def Let_def)

lemma remove_map:
  "offsetsDataMap (removeInspectionResultFromMap binID s) = (offsetsDataMap s)(binary_key binID := None)"
  by (cases "offsetsDataMap s (binary_key binID)") (auto simp: remove_present remove_absent)

lemma remove_probes [simp]:
  "manager_Probes (removeInspectionResultFromMap binID s) = manager_Probes s"
  by (cases "offsetsDataMap s (binary_key binID)") (auto simp: remove_present remove_absent)

lemma remove_events:
  "\<exists>r rest. events (removeInspectionResultFromMap binID s) =
              events s @ EvMapDelete (binary_key binID) r # rest
     \<and> (rest = [] \<or> rest = [EvLogError ''could not remove inspection result from map''])"
  by (cases "offsetsDataMap s (binary_key binID)") (auto simp: remove_present remove_absent)

text \<open>
  Claim C9. The key of \<open>Put\<close> and the key of \<open>Delete\<close> are the same triple of the
  device's major number, its minor number and the inode of the binary's path
  identifier: whenever the analysis result converts, \<open>addInspectionResultToMap\<close>
  calls \<open>Put\<close> once, with that key; \<open>removeInspectionResultFromMap\<close> calls
  \<open>Delete\<close> first, with that key, from any state; and when the \<open>Put\<close> succeeded,
  the \<open>Delete\<close> that follows it succeeds and leaves the table without the entry.
\<close>

theorem put_and_delete_use_the_same_key:
  assumes "inspectionResultToProbeData E result = Inr d"
  shows "new_events s (snd (addInspectionResultToMap E binID result s)) =
           [EvMapPut \<lparr>Id_major = unix_Major (Dev binID), Id_minor = unix_Minor (Dev binID),
                      Ino = Inode binID\<rparr>
              (Put_err E (offsetsDataMap s)
                 \<lparr>Id_major = unix_Major (Dev binID), Id_minor = unix_Minor (Dev binID),
                  Ino = Inode binID\<rparr>)]
       \<and> (\<exists>r rest. new_events s' (removeInspectionResultFromMap binID s') =
              EvMapDelete \<lparr>Id_major = unix_Major (Dev binID), Id_minor = unix_Minor (Dev binID),
                           Ino = Inode binID\<rparr> r # rest)
       \<and> (fst (addInspectionResultToMap E binID result s) = None \<longrightarrow>
            offsetsDataMap (snd (addInspectionResultToMap E binID result s))
              \<lparr>Id_major = unix_Major (Dev binID), Id_minor = unix_Minor (Dev binID),
               Ino = Inode binID\<rparr> = Some d
          \<and> new_events (snd (addInspectionResultToMap E binID result s))
               (removeInspectionResultFromMap binID (snd (addInspectionResultToMap E binID result s)))
              = [EvMapDelete \<lparr>Id_major = unix_Major (Dev binID), Id_minor = unix_Minor (Dev binID),
                              Ino = Inode binID\<rparr> None]
          \<and> offsetsDataMap
               (removeInspectionResultFromMap binID (snd (addInspectionResultToMap E binID result s)))
              = (offsetsDataMap s)
                  (\<lparr>Id_major = unix_Major (Dev binID), Id_minor = unix_Minor (Dev binID),
                    Ino = Inode binID\<rparr> := None))"
proof -
  let ?k = "binary_key binID"
  let ?a = "addInspectionResultToMap E binID result s"
  have k: "\<lparr>Id_major = unix_Major (Dev binID), Id_minor = unix_Minor (Dev binID),
            Ino = Inode binID\<rparr> = ?k"
    by (simp add: binary_key_def)
  have 1: "new_events s (snd ?a) = [EvMapPut ?k (Put_err E (offsetsDataMap s) ?k)]"
    using add_events [OF assms, of binID s] by (simp add: new_events_app)
  have 2: "\<exists>r rest. new_events s' (removeInspectionResultFromMap binID s') = EvMapDelete ?k r # rest"
    using remove_events [of binID s'] by (auto simp: new_events_app)
  have 3: "offsetsDataMap (snd ?a) ?k = Some d
         \<and> new_events (snd ?a) (removeInspectionResultFromMap binID (snd ?a)) = [EvMapDelete ?k None]
         \<and> offsetsDataMap (removeInspectionResultFromMap binID (snd ?a)) = (offsetsDataMap s)(?k := None)"
    if ok: "fst ?a = None"
  proof -
    obtain s1 where a: "?a = (None, s1)" using ok by (cases ?a) auto
    from add_ok [OF a] assms
    have s1: "s1 = emit (EvMapPut ?k None) (s\<lparr>offsetsDataMap := (offsetsDataMap s)(?k \<mapsto> d)\<rparr>)"
      by auto
    have p: "offsetsDataMap s1 ?k = Some d" by (simp add: s1)
    show ?thesis
      using p by (simp add: a remove_present new_events_app) (simp add: s1)
  qed
  show ?thesis unfolding k using 1 2 3 by blast
qed

theorem put_and_delete_use_the_same_key_witness:
  "inspectionResultToProbeData env0 result0 = Inr 5
   \<and> fst (addInspectionResultToMap env0 binID0 result0 ext0) = None
   \<and> new_events ext0 (snd (addInspectionResultToMap env0 binID0 result0 ext0)) =
       [EvMapPut \<lparr>Id_major = 8, Id_minor = 3, Ino = 77\<rparr> None]
   \<and> new_events (snd (addInspectionResultToMap env0 binID0 result0 ext0))
        (removeInspectionResultFromMap binID0 (snd (addInspectionResultToMap env0 binID0 result0 ext0))) =
       [EvMapDelete \<lparr>Id_major = 8, Id_minor = 3, Ino = 77\<rparr> None]
   \<and> offsetsDataMap
        (removeInspectionResultFromMap binID0 (snd (addInspectionResultToMap env0 binID0 result0 ext0)))
        \<lparr>Id_major = 8, Id_minor = 3, Ino = 77\<rparr> = None"
proof -
  have h: "inspectionResultToProbeData env0 result0 = Inr 5" by (simp add: env0_def)
  have ok: "fst (addInspectionResultToMap env0 binID0 result0 ext0) = None" by code_simp
  have k: "unix_Major (Dev binID0) = 8" "unix_Minor (Dev binID0) = 3" "Inode binID0 = 77"
    by code_simp+
  have e: "offsetsDataMap ext0 = Map.empty" "Put_err env0 = (\<lambda>m k. None)"
    by (simp_all add: ext0_def env0_def)
  show ?thesis
    using put_and_delete_use_the_same_key [OF h, of ext0 binID0 ext0] h ok
    by (auto simp: k e)
qed

subsection \<open>The register callback\<close>

lemma attach_return_hooks_ok:
  "attach_return_hooks E u uid bp i offs ids s = (Inr ids', s') \<Longrightarrow>
     \<exists>more. ids' = ids @ more \<and> length more = length offs"
proof (induction offs arbitrary: i ids s)
  case Nil
  then show ?case by simp
next
  case (Cons a offs)
  then show ?case
    by (auto simp: Let_def split: prod.splits option.splits) fastforce
qed

lemma attach_function_ok:
  "attach_function E result bp uid f ids s = (Inr ids', s') \<Longrightarrow>
     \<exists>more. ids' = ids @ more \<and> more \<noteq> []"
  by (cases f)
     (auto simp: attach_function_def Let_def connReadProbe_def connWriteProbe_def connCloseProbe_def
           split: prod.splits option.splits sum.splits if_splits
           dest!: attach_return_hooks_ok)

lemma attach_functions_ok:
  "attach_functions E result bp uid fs ids s = (Inr ids', s') \<Longrightarrow> fs \<noteq> [] \<Longrightarrow> ids' \<noteq> []"
proof (induction fs arbitrary: ids s)
  case Nil
  then show ?case by simp
next
  case (Cons f fs)
  from Cons.prems obtain ids1 s1 where
    1: "attach_function E result bp uid f ids s = (Inr ids1, s1)" and
    2: "attach_functions E result bp uid fs ids1 s1 = (Inr ids', s')"
    by (auto split: prod.splits sum.splits)
  from attach_function_ok [OF 1] have n: "ids1 \<noteq> []" by auto
  show ?case
  proof (cases fs)
    case Nil
    with 2 n show ?thesis by simp
  next
    case (Cons g gs)
    with Cons.IH [OF 2] show ?thesis by simp
  qed
qed

lemma registerCBCreator_ok_nonempty:
  assumes "range_functionToProbes_ok E" "registerCBCreator E path s = (Inr pIDs, s')"
  shows "pIDs \<noteq> []"
proof -
  have ne: "range_functionToProbes E \<noteq> []"
    using assms(1) by (auto simp: range_functionToProbes_ok_def)
  from assms(2) obtain r s1 s2 where
    "attachHooks E r (HostPath path) (ID path) s1 = (Inr pIDs, s2)"
    by (auto simp: registerCBCreator_def split: sum.splits prod.splits option.splits if_splits)
  then show ?thesis
    using attach_functions_ok ne by (auto simp: attachHooks_def)
qed

text \<open>
  Claim C7. When the file opens and parses and the analysis fails, the register
  callback returns the analysis error, wrapped. If the error is the no-symbols error
  the state after the call is the state before it with the no-symbols counter one
  higher; otherwise the state is unchanged. In both cases no probe is added, and
  \<open>Register\<close>, called for a binary without an entry, returns an error and creates no
  entry.
\<close>

theorem no_symbols_is_counted_once:
  assumes "os_Open E (HostPath filePath) = Inr f"
      and "safeelf_NewFile E f = Inr elfFile"
      and "InspectNewProcessBinary E elfFile = Inl err"
  shows "fst (registerCBCreator E filePath s) = Inl (Wrapped ''error extracting inspection data'' err)
       \<and> (errors_Is err ErrNoSymbols \<longrightarrow>
            snd (registerCBCreator E filePath s) = s\<lparr>binNoSymbolsMetric := binNoSymbolsMetric s + 1\<rparr>)
       \<and> (\<not> errors_Is err ErrNoSymbols \<longrightarrow> snd (registerCBCreator E filePath s) = s)
       \<and> manager_Probes (snd (registerCBCreator E filePath s)) = manager_Probes s
       \<and> (NewFilePath E path pid = Inr filePath \<and> map_of (entries r) (ID filePath) = None \<longrightarrow>
            fst (Register E path pid (registerCBCreator E) IgnoreCB r s) \<noteq> None
          \<and> entries (fst (snd (Register E path pid (registerCBCreator E) IgnoreCB r s))) = entries r)"
  using assms by (auto simp: registerCBCreator_def Register_def invoked_def)

theorem no_symbols_is_counted_once_witness:
  "os_Open env_no_symbols (HostPath path0) = Inr 3
   \<and> safeelf_NewFile env_no_symbols 3 = Inr 4
   \<and> InspectNewProcessBinary env_no_symbols 4 = Inl ErrNoSymbols
   \<and> errors_Is ErrNoSymbols ErrNoSymbols
   \<and> NewFilePath env_no_symbols ''/usr/bin/app'' 42 = Inr path0
   \<and> map_of (entries (NewFileRegistry :: ProbeIdentificationPair list FileRegistry)) (ID path0) = None
   \<and> fst (registerCBCreator env_no_symbols path0 ext0) =
       Inl (Wrapped ''error extracting inspection data'' ErrNoSymbols)
   \<and> binNoSymbolsMetric (snd (registerCBCreator env_no_symbols path0 ext0)) = 1
   \<and> manager_Probes (snd (registerCBCreator env_no_symbols path0 ext0)) = []
   \<and> entries (fst (snd (Register env_no_symbols ''/usr/bin/app'' 42 (registerCBCreator env_no_symbols)
                          IgnoreCB NewFileRegistry ext0))) = []
   \<and> InspectNewProcessBinary env_other_failure 4 = Inl (ErrOther ''unsupported binary'')
   \<and> \<not> errors_Is (ErrOther ''unsupported binary'') ErrNoSymbols
   \<and> binNoSymbolsMetric (snd (registerCBCreator env_other_failure path0 ext0)) = 0"
proof -
  have a: "os_Open env_no_symbols (HostPath path0) = Inr 3"
          "safeelf_NewFile env_no_symbols 3 = Inr 4"
          "InspectNewProcessBinary env_no_symbols 4 = Inl ErrNoSymbols"
    by (simp_all add: env_no_symbols_def env0_def)
  have b: "os_Open env_other_failure (HostPath path0) = Inr 3"
          "safeelf_NewFile env_other_failure 3 = Inr 4"
          "InspectNewProcessBinary env_other_failure 4 = Inl (ErrOther ''unsupported binary'')"
    by (simp_all add: env_other_failure_def env0_def)
  have c: "NewFilePath env_no_symbols ''/usr/bin/app'' 42 = Inr path0"
          "map_of (entries (NewFileRegistry :: ProbeIdentificationPair list FileRegistry)) (ID path0) = None"
    by (simp_all add: env_no_symbols_def env0_def path0_def NewFileRegistry_def)
  have e: "binNoSymbolsMetric ext0 = 0" "manager_Probes ext0 = []"
          "entries (NewFileRegistry :: ProbeIdentificationPair list FileRegistry) = []"
    by (simp_all add: ext0_def NewFileRegistry_def)
  show ?thesis
    using no_symbols_is_counted_once [OF a, of ext0 "''/usr/bin/app''" 42 NewFileRegistry]
          no_symbols_is_counted_once [OF b, of ext0 "''/usr/bin/app''" 42 NewFileRegistry]
          a b c
    by (simp add: e)
qed

subsection \<open>The unregister callback\<close>

lemma detached_append [simp]: "detached (xs @ ys) = detached xs @ detached ys"
  by (induction xs rule: detached.induct) auto

lemma detach_one_effect:
  "\<exists>evs. events (detach_one E i s) = events s @ evs
     \<and> detached evs = [i]
     \<and> length (filter (\<lambda>e. e = EvLogError ''failed detaching hook'') evs) =
         length (filter detach_failed evs)
     \<and> offsetsDataMap (detach_one E i s) = offsetsDataMap s
     \<and> manager_Probes (detach_one E i s) = surviving E i (manager_Probes s)"
  by (cases "DetachHook_err E (manager_Probes s) i")
     (auto simp: detach_one_def DetachHook_def surviving_def)

lemma fold_detach_effect:
  "\<exists>evs. events (fold (detach_one E) ids s) = events s @ evs
     \<and> detached evs = ids
     \<and> length (filter (\<lambda>e. e = EvLogError ''failed detaching hook'') evs) =
         length (filter detach_failed evs)
     \<and> offsetsDataMap (fold (detach_one E) ids s) = offsetsDataMap s
     \<and> manager_Probes (fold (detach_one E) ids s) = fold (surviving E) ids (manager_Probes s)"
proof (induction ids arbitrary: s)
  case Nil
  then show ?case by simp
next
  case (Cons i ids)
  from detach_one_effect [of E i s] obtain e1 where
    1: "events (detach_one E i s) = events s @ e1" "detached e1 = [i]"
       "length (filter (\<lambda>e. e = EvLogError ''failed detaching hook'') e1) =
          length (filter detach_failed e1)"
       "offsetsDataMap (detach_one E i s) = offsetsDataMap s"
       "manager_Probes (detach_one E i s) = surviving E i (manager_Probes s)"
    by blast
  from Cons.IH [of "detach_one E i s"] obtain e2 where
    2: "events (fold (detach_one E) ids (detach_one E i s)) = events (detach_one E i s) @ e2"
       "detached e2 = ids"
       "length (filter (\<lambda>e. e = EvLogError ''failed detaching hook'') e2) =
          length (filter detach_failed e2)"
       "offsetsDataMap (fold (detach_one E) ids (detach_one E i s)) =
          offsetsDataMap (detach_one E i s)"
       "manager_Probes (fold (detach_one E) ids (detach_one E i s)) =
          fold (surviving E) ids (manager_Probes (detach_one E i s))"
    by blast
  show ?case
    by (rule exI [of _ "e1 @ e2"]) (simp add: 1 2)
qed

text \<open>
  Claim C5. Let the probe list be one a successful register callback produced (so it is
  not empty). Then the unregister callback, from any state, returns nil; its first call
  is the \<open>Delete\<close> of the identity's key in the lookup table, and the table has no
  entry for the key afterwards; after it, \<open>DetachHook\<close> is called on every probe of
  the list, in order, whether or not an earlier call failed; each failed call is
  followed by one error line in the log; and the manager's probes afterwards are those
  before the call, without every probe whose \<open>DetachHook\<close> succeeded.
\<close>

theorem teardown_is_best_effort:
  assumes "range_functionToProbes_ok E"
      and "registerCBCreator E path s0 = (Inr probeIDs, s1)"
  shows "fst (unregisterCBCreator E probeIDs path s) = None
       \<and> (\<exists>r rest. new_events s (snd (unregisterCBCreator E probeIDs path s)) =
              EvMapDelete \<lparr>Id_major = unix_Major (Dev (ID path)),
                           Id_minor = unix_Minor (Dev (ID path)),
                           Ino = Inode (ID path)\<rparr> r # rest
            \<and> detached rest = probeIDs
            \<and> length (filter (\<lambda>e. e = EvLogError ''failed detaching hook'') rest) =
                length (filter detach_failed rest))
       \<and> offsetsDataMap (snd (unregisterCBCreator E probeIDs path s))
            \<lparr>Id_major = unix_Major (Dev (ID path)), Id_minor = unix_Minor (Dev (ID path)),
             Ino = Inode (ID path)\<rparr> = None
       \<and> manager_Probes (snd (unregisterCBCreator E probeIDs path s)) =
            fold (surviving E) probeIDs (manager_Probes s)"
proof -
  let ?k = "binary_key (ID path)"
  let ?s1 = "removeInspectionResultFromMap (ID path) s"
  have k: "\<lparr>Id_major = unix_Major (Dev (ID path)), Id_minor = unix_Minor (Dev (ID path)),
            Ino = Inode (ID path)\<rparr> = ?k"
    by (simp add: binary_key_def)
  have ne: "probeIDs \<noteq> []" using registerCBCreator_ok_nonempty [OF assms] .
  then have u: "unregisterCBCreator E probeIDs path s = (None, fold (detach_one E) probeIDs ?s1)"
    by (simp add: unregisterCBCreator_def)
  from remove_events [of "ID path" s] obtain r0 rest0 where
    a: "events ?s1 = events s @ EvMapDelete ?k r0 # rest0"
       "rest0 = [] \<or> rest0 = [EvLogError ''could not remove inspection result from map'']"
    by blast
  from fold_detach_effect [of E probeIDs ?s1] obtain evs where
    b: "events (fold (detach_one E) probeIDs ?s1) = events ?s1 @ evs"
       "detached evs = probeIDs"
       "length (filter (\<lambda>e. e = EvLogError ''failed detaching hook'') evs) =
          length (filter detach_failed evs)"
       "offsetsDataMap (fold (detach_one E) probeIDs ?s1) = offsetsDataMap ?s1"
       "manager_Probes (fold (detach_one E) probeIDs ?s1) =
          fold (surviving E) probeIDs (manager_Probes ?s1)"
    by blast
  have ev: "new_events s (fold (detach_one E) probeIDs ?s1) = EvMapDelete ?k r0 # (rest0 @ evs)"
    by (rule new_events_app) (simp add: a b)
  have r0: "detached (rest0 @ evs) = probeIDs
          \<and> length (filter (\<lambda>e. e = EvLogError ''failed detaching hook'') (rest0 @ evs)) =
              length (filter detach_failed (rest0 @ evs))"
    using a(2) b(2,3) by auto
  show ?thesis
    unfolding k u using ev r0 b(4,5) by (simp add: remove_map)
qed

lemma probe_names [simp]:
  "connReadProbe \<noteq> []" "connReadRetProbe \<noteq> []" "connWriteProbe \<noteq> []"
  "connWriteRetProbe \<noteq> []" "connCloseProbe \<noteq> []" "connReadProbe \<noteq> connReadRetProbe"
  "connReadProbe \<noteq> connWriteProbe" "connReadProbe \<noteq> connWriteRetProbe" "connReadProbe \<noteq> connCloseProbe"
  "connReadRetProbe \<noteq> connReadProbe" "connReadRetProbe \<noteq> connWriteProbe" "connReadRetProbe \<noteq> connWriteRetProbe"
  "connReadRetProbe \<noteq> connCloseProbe" "connWriteProbe \<noteq> connReadProbe" "connWriteProbe \<noteq> connReadRetProbe"
  "connWriteProbe \<noteq> connWriteRetProbe" "connWriteProbe \<noteq> connCloseProbe" "connWriteRetProbe \<noteq> connReadProbe"
  "connWriteRetProbe \<noteq> connReadRetProbe" "connWriteRetProbe \<noteq> connWriteProbe" "connWriteRetProbe \<noteq> connCloseProbe"
  "connCloseProbe \<noteq> connReadProbe" "connCloseProbe \<noteq> connReadRetProbe" "connCloseProbe \<noteq> connWriteProbe"
  "connCloseProbe \<noteq> connWriteRetProbe"
  by (simp_all add: connReadProbe_def connReadRetProbe_def connWriteProbe_def
        connWriteRetProbe_def connCloseProbe_def)

lemma key0 [simp]: "unix_Major 0x803 = 8" "unix_Minor 0x803 = 3"
  by code_simp+

lemmas callback_defs =
  registerCBCreator_def unregisterCBCreator_def addInspectionResultToMap_def removeInspectionResultFromMap_def
  Map_Put_def Map_Delete_def attachHooks_def attach_function_def AddHook_def DetachHook_def
  detach_one_def Functions_at_def emit_def Let_def FormatUint.simps

lemmas host_defs =
  env0_def path0_def ext0_def binID0_def result0_def probeIDs0_def

theorem teardown_is_best_effort_witness:
  "range_functionToProbes_ok env_detach_fails
   \<and> registerCBCreator env_detach_fails path0 ext0 =
       (Inr probeIDs0, snd (registerCBCreator env_detach_fails path0 ext0))
   \<and> fst (unregisterCBCreator env_detach_fails probeIDs0 path0
            (snd (registerCBCreator env_detach_fails path0 ext0))) = None
   \<and> detached (new_events (snd (registerCBCreator env_detach_fails path0 ext0))
                 (snd (unregisterCBCreator env_detach_fails probeIDs0 path0
                        (snd (registerCBCreator env_detach_fails path0 ext0))))) = probeIDs0
   \<and> offsetsDataMap (snd (unregisterCBCreator env_detach_fails probeIDs0 path0
                             (snd (registerCBCreator env_detach_fails path0 ext0))))
        \<lparr>Id_major = 8, Id_minor = 3, Ino = 77\<rparr> = None
   \<and> manager_Probes (snd (unregisterCBCreator env_detach_fails probeIDs0 path0
                             (snd (registerCBCreator env_detach_fails path0 ext0)))) =
       [\<lparr>ProbeIdentificationPair_of = \<lparr>EBPFFuncName = connReadProbe, UID = ''u77''\<rparr>,
         BinaryPath = ''/host/usr/bin/app'', UprobeOffset = 0x1000\<rparr>]"
proof -
  let ?s = "snd (registerCBCreator env_detach_fails path0 ext0)"
  have h1: "range_functionToProbes_ok env_detach_fails"
    by (auto simp: range_functionToProbes_ok_def env_detach_fails_def env0_def)
  have h2: "registerCBCreator env_detach_fails path0 ext0 = (Inr probeIDs0, ?s)"
    by (simp add: callback_defs host_defs env_detach_fails_def)
  have m: "manager_Probes ?s =
       [\<lparr>ProbeIdentificationPair_of = \<lparr>EBPFFuncName = connReadRetProbe, UID = ''u77_0''\<rparr>,
         BinaryPath = ''/host/usr/bin/app'', UprobeOffset = 0x1010\<rparr>,
        \<lparr>ProbeIdentificationPair_of = \<lparr>EBPFFuncName = connReadRetProbe, UID = ''u77_1''\<rparr>,
         BinaryPath = ''/host/usr/bin/app'', UprobeOffset = 0x1020\<rparr>,
        \<lparr>ProbeIdentificationPair_of = \<lparr>EBPFFuncName = connReadProbe, UID = ''u77''\<rparr>,
         BinaryPath = ''/host/usr/bin/app'', UprobeOffset = 0x1000\<rparr>,
        \<lparr>ProbeIdentificationPair_of = \<lparr>EBPFFuncName = connWriteRetProbe, UID = ''u77_0''\<rparr>,
         BinaryPath = ''/host/usr/bin/app'', UprobeOffset = 0x2010\<rparr>,
        \<lparr>ProbeIdentificationPair_of = \<lparr>EBPFFuncName = connWriteProbe, UID = ''u77''\<rparr>,
         BinaryPath = ''/host/usr/bin/app'', UprobeOffset = 0x2000\<rparr>,
        \<lparr>ProbeIdentificationPair_of = \<lparr>EBPFFuncName = connCloseProbe, UID = ''u77''\<rparr>,
         BinaryPath = ''/host/usr/bin/app'', UprobeOffset = 0x3000\<rparr>]"
    by (simp add: callback_defs host_defs env_detach_fails_def)
  have f: "fold (surviving env_detach_fails) probeIDs0 (manager_Probes ?s) =
       [\<lparr>ProbeIdentificationPair_of = \<lparr>EBPFFuncName = connReadProbe, UID = ''u77''\<rparr>,
         BinaryPath = ''/host/usr/bin/app'', UprobeOffset = 0x1000\<rparr>]"
    unfolding m by (simp add: surviving_def probeIDs0_def env_detach_fails_def env0_def)
  have k: "unix_Major (Dev (ID path0)) = 8" "unix_Minor (Dev (ID path0)) = 3" "Inode (ID path0) = 77"
    by (simp_all add: path0_def binID0_def)
  from teardown_is_best_effort [OF h1 h2, of ?s]
  have c: "fst (unregisterCBCreator env_detach_fails probeIDs0 path0 ?s) = None"
    "detached (new_events ?s (snd (unregisterCBCreator env_detach_fails probeIDs0 path0 ?s))) = probeIDs0"
    "offsetsDataMap (snd (unregisterCBCreator env_detach_fails probeIDs0 path0 ?s))
        \<lparr>Id_major = 8, Id_minor = 3, Ino = 77\<rparr> = None"
    "manager_Probes (snd (unregisterCBCreator env_detach_fails probeIDs0 path0 ?s)) =
       fold (surviving env_detach_fails) probeIDs0 (manager_Probes ?s)"
    unfolding k by auto
  show ?thesis
    using h1 h2 c(1,2,3) c(4) [unfolded f] by blast
qed

subsection \<open>A hook that fails part-way\<close>

text \<open>
  Claim C1, which the source does not keep. On the host where the manager refuses the
  entry probe of \<open>Read\<close>, the two return probes of \<open>Read\<close> are added first. The
  register callback then returns the error and removes the entry of the lookup table,
  but \<open>attachHooks\<close> has returned no probe list, and the two probes stay with the
  manager. The probe list the closures share is still empty, so the unregister callback
  would not detach them either; and \<open>AttachPID\<close> on this host returns the error and
  leaves the registry without an entry, so that no later call removes them.
\<close>

theorem hooks_added_before_a_failure_stay_installed:
  "fst (registerCBCreator env_hook_fails path0 ext0) =
     Inl (Wrapped ''error while attaching hooks''
           (Wrapped ''could not add hook'' (ErrOther ''invalid argument'')))
   \<and> manager_Probes ext0 = []
   \<and> manager_Probes (snd (registerCBCreator env_hook_fails path0 ext0)) =
       [\<lparr>ProbeIdentificationPair_of = \<lparr>EBPFFuncName = connReadRetProbe, UID = ''u77_0''\<rparr>,
         BinaryPath = ''/host/usr/bin/app'', UprobeOffset = 0x1010\<rparr>,
        \<lparr>ProbeIdentificationPair_of = \<lparr>EBPFFuncName = connReadRetProbe, UID = ''u77_1''\<rparr>,
         BinaryPath = ''/host/usr/bin/app'', UprobeOffset = 0x1020\<rparr>]
   \<and> offsetsDataMap (snd (registerCBCreator env_hook_fails path0 ext0))
        \<lparr>Id_major = 8, Id_minor = 3, Ino = 77\<rparr> = None
   \<and> manager_Probes (snd (unregisterCBCreator env_hook_fails [] path0
                             (snd (registerCBCreator env_hook_fails path0 ext0)))) =
       [\<lparr>ProbeIdentificationPair_of = \<lparr>EBPFFuncName = connReadRetProbe, UID = ''u77_0''\<rparr>,
         BinaryPath = ''/host/usr/bin/app'', UprobeOffset = 0x1010\<rparr>,
        \<lparr>ProbeIdentificationPair_of = \<lparr>EBPFFuncName = connReadRetProbe, UID = ''u77_1''\<rparr>,
         BinaryPath = ''/host/usr/bin/app'', UprobeOffset = 0x1020\<rparr>]
   \<and> fst (AttachPID env_hook_fails 42 prog0) =
       Some (Wrapped ''error while attaching hooks''
              (Wrapped ''could not add hook'' (ErrOther ''invalid argument'')))
   \<and> entries (registry (snd (AttachPID env_hook_fails 42 prog0))) = []
   \<and> manager_Probes (ext (snd (AttachPID env_hook_fails 42 prog0))) =
       [\<lparr>ProbeIdentificationPair_of = \<lparr>EBPFFuncName = connReadRetProbe, UID = ''u77_0''\<rparr>,
         BinaryPath = ''/host/usr/bin/app'', UprobeOffset = 0x1010\<rparr>,
        \<lparr>ProbeIdentificationPair_of = \<lparr>EBPFFuncName = connReadRetProbe, UID = ''u77_1''\<rparr>,
         BinaryPath = ''/host/usr/bin/app'', UprobeOffset = 0x1020\<rparr>]"
  by code_simp

subsection \<open>The callbacks only add events of the map, the manager and the logger\<close>

lemma grows_refl [simp]: "grows s s"
  by (simp add: grows_def)

lemma grows_trans: "grows s s' \<Longrightarrow> grows s' s'' \<Longrightarrow> grows s s''"
  by (auto simp: grows_def)

lemma grows_emit: "is_effect e \<Longrightarrow> grows s s' \<Longrightarrow> grows s (emit e s')"
  by (auto simp: grows_def)

lemma grows_update [simp]:
  "grows s (s'\<lparr>binAnalysisMetric := a\<rparr>) = grows s s'"
  "grows s (s'\<lparr>binNoSymbolsMetric := b\<rparr>) = grows s s'"
  "grows s (s'\<lparr>manager_Probes := c\<rparr>) = grows s s'"
  "grows s (s'\<lparr>offsetsDataMap := d\<rparr>) = grows s s'"
  by (simp_all add: grows_def)

lemma grows_AddHook: "grows s (snd (AddHook E pr s))"
  by (auto simp: AddHook_def grows_emit split: option.splits)

lemma grows_DetachHook: "grows s (snd (DetachHook E i s))"
  by (auto simp: DetachHook_def grows_emit split: option.splits)

lemma grows_Map_Put: "grows s (snd (Map_Put E k v s))"
  by (auto simp: Map_Put_def grows_emit split: option.splits)

lemma grows_Map_Delete: "grows s (snd (Map_Delete k s))"
  by (auto simp: Map_Delete_def grows_emit split: option.splits)

lemma grows_add: "grows s (snd (addInspectionResultToMap E binID result s))"
  using grows_Map_Put [of s E]
  by (auto simp: addInspectionResultToMap_def Let_def split: sum.splits prod.splits option.splits)
     (metis snd_conv)+

lemma grows_remove: "grows s (removeInspectionResultFromMap binID s)"
  by (cases "offsetsDataMap s (binary_key binID)")
     (auto simp: remove_present remove_absent grows_emit)

lemma grows_attach_return_hooks:
  "grows s (snd (attach_return_hooks E u uid bp i offs ids s))"
proof (induction offs arbitrary: i ids s)
  case Nil
  then show ?case by simp
next
  case (Cons a offs)
  let ?pr = "\<lparr>ProbeIdentificationPair_of = \<lparr>EBPFFuncName = returnInfo u, UID = makeReturnUID E uid i\<rparr>,
               BinaryPath = bp, UprobeOffset = a\<rparr>"
  obtain r s1 where a: "AddHook E ?pr s = (r, s1)" by (cases "AddHook E ?pr s")
  have g: "grows s s1" using grows_AddHook [of s E ?pr] a by simp
  show ?case
  proof (cases r)
    case None
    then show ?thesis
      using a g Cons.IH [of s1] by (auto simp: Let_def intro: grows_trans)
  next
    case (Some e)
    then show ?thesis using a g by (simp add: Let_def)
  qed
qed

lemma grows_attach_function:
  "grows s (snd (attach_function E result bp uid f ids s))"
proof -
  let ?u = "functionToProbes f"
  let ?ret = "(if IncludeReturnLocations f
            then (if returnInfo ?u = []
                  then (Inl (ErrOther ''configured to include return locations but no return uprobes found in config''), s)
                  else attach_return_hooks E ?u uid bp 0
                         (ReturnLocations (Functions_at result f)) ids s)
            else (Inr ids, s))"
  obtain r1 s1 where a: "?ret = (r1, s1)" by (cases ?ret)
  have g1: "grows s s1"
    using a grows_attach_return_hooks [of s E ?u uid bp 0 "ReturnLocations (Functions_at result f)" ids]
    by (auto split: if_splits)
  show ?thesis
  proof (cases r1)
    case (Inl e)
    then show ?thesis using a g1 by (simp add: attach_function_def Let_def)
  next
    case (Inr ids1)
    let ?pr = "\<lparr>ProbeIdentificationPair_of = \<lparr>EBPFFuncName = functionInfo ?u, UID = uid\<rparr>,
                 BinaryPath = bp, UprobeOffset = EntryLocation (Functions_at result f)\<rparr>"
    have g2: "grows s (snd (AddHook E ?pr s1))"
      using g1 grows_AddHook [of s1 E ?pr] by (rule grows_trans)
    show ?thesis
      using a Inr g1 g2
      by (cases "AddHook E ?pr s1") (auto simp: attach_function_def Let_def split: option.splits)
  qed
qed

lemma grows_attach_functions:
  "grows s (snd (attach_functions E result bp uid fs ids s))"
proof (induction fs arbitrary: ids s)
  case Nil
  then show ?case by simp
next
  case (Cons f fs)
  obtain r1 s1 where a: "attach_function E result bp uid f ids s = (r1, s1)"
    by (cases "attach_function E result bp uid f ids s")
  have g: "grows s s1" using grows_attach_function [of s E result bp uid f ids] a by simp
  show ?case
    using a g Cons.IH [where s = s1] by (cases r1) (auto intro: grows_trans)
qed

lemma grows_attachHooks: "grows s (snd (attachHooks E result bp binID s))"
  by (simp add: attachHooks_def grows_attach_functions)

lemma grows_registerCBCreator: "grows s (snd (registerCBCreator E fp s))"
proof -
  have 1: "grows s (removeInspectionResultFromMap b
             (snd (attachHooks E r hp b (snd (addInspectionResultToMap E b r s)))))" for b r hp
    by (meson grows_add grows_attachHooks grows_remove grows_trans)
  have 2: "grows s (snd (attachHooks E r hp b (snd (addInspectionResultToMap E b r s))))" for b r hp
    by (meson grows_add grows_attachHooks grows_trans)
  show ?thesis
    using grows_add [of s E] 1 2
    by (auto simp: registerCBCreator_def split: sum.splits prod.splits option.splits)
       (metis snd_conv)+
qed

lemma grows_detach_one: "grows s (detach_one E i s)"
  using grows_DetachHook [of s E i]
  by (cases "DetachHook E i s") (auto simp: detach_one_def grows_emit split: option.splits)

lemma grows_fold_detach: "grows s (fold (detach_one E) ids s)"
  by (induction ids arbitrary: s) (auto intro: grows_trans grows_detach_one)

lemma grows_unregisterCBCreator: "grows s (snd (unregisterCBCreator E ids fp s))"
  by (auto simp: unregisterCBCreator_def intro: grows_trans grows_remove grows_fold_detach)

lemma grows_Register: "grows s (snd (snd (Register E path pid (registerCBCreator E) IgnoreCB r s)))"
  by (auto simp: Register_def IgnoreCB_def split: sum.splits option.splits prod.splits)
     (metis grows_registerCBCreator snd_conv)+

lemma grows_Unregister: "grows s (snd (snd (Unregister pid (unregisterCBCreator E) r s)))"
  by (auto simp: Unregister_def Let_def grows_unregisterCBCreator split: option.splits prod.splits)

lemma grows_clear_entries:
  "grows s (snd (clear_entries (unregisterCBCreator E) es (cs, s)))"
proof (induction es arbitrary: cs s)
  case Nil
  then show ?case by simp
next
  case (Cons a es)
  obtain k e where a: "a = (k, e)" by (cases a)
  show ?case
    unfolding a
    using Cons.IH [where s = "snd (unregisterCBCreator E (entry_handles e) (entry_path e) s)"]
      grows_unregisterCBCreator [of s E "entry_handles e" "entry_path e"]
    by (auto intro: grows_trans)
qed

lemma grows_Clear: "grows s (snd (Clear (unregisterCBCreator E) r s))"
  using grows_clear_entries [of s E "entries r" "callbacks r"]
  by (auto simp: Clear_def split: prod.splits)

subsection \<open>The four ways through AttachPID\<close>

lemma record_event_fields [simp]:
  "cfg_GoTLSExcludeSelf (record_event e p) = cfg_GoTLSExcludeSelf p"
  "procRoot (record_event e p) = procRoot p"
  "registry (record_event e p) = registry p"
  "ext (record_event e p) = emit e (ext p)"
  by (simp_all add: record_event_def)

lemma exePath_of_record_event [simp]: "exePath_of E (record_event e p) pid = exePath_of E p pid"
  by (simp add: exePath_of_def)

lemma record_event_ext_update [simp]:
  "(record_event e p)\<lparr>registry := r, ext := s\<rparr> = p\<lparr>registry := r, ext := s\<rparr>"
  by (simp add: record_event_def)

lemma AttachPID_self:
  "self_excluded E p pid \<Longrightarrow>
     AttachPID E pid p = (Some ErrSelfExcluded, record_event (EvAttachPID pid) p)"
  by (simp add: AttachPID_def self_excluded_def Let_def)

lemma AttachPID_unresolved:
  "\<not> self_excluded E p pid \<Longrightarrow> os_Readlink E (exePath_of E p pid) = Inl err \<Longrightarrow>
     AttachPID E pid p =
       (Some err,
        record_event (EvReadlink (exePath_of E p pid) (Inl err)) (record_event (EvAttachPID pid) p))"
  by (auto simp add: AttachPID_def self_excluded_def Let_def)

lemma AttachPID_internal:
  "\<not> self_excluded E p pid \<Longrightarrow> os_Readlink E (exePath_of E p pid) = Inr binPath \<Longrightarrow>
   MatchString internalProcessRegex binPath \<Longrightarrow>
     AttachPID E pid p =
       (Some ErrInternalDDogProcessRejected,
        record_event (EvReadlink (exePath_of E p pid) (Inr binPath))
          (record_event (EvAttachPID pid) p))"
  by (auto simp add: AttachPID_def self_excluded_def Let_def)

lemma AttachPID_registers:
  "\<not> self_excluded E p pid \<Longrightarrow> os_Readlink E (exePath_of E p pid) = Inr binPath \<Longrightarrow>
   \<not> MatchString internalProcessRegex binPath \<Longrightarrow>
     AttachPID E pid p =
       (case Register E binPath pid (registerCBCreator E) IgnoreCB (registry p)
               (emit (EvRegister binPath pid)
                  (emit (EvReadlink (exePath_of E p pid) (Inr binPath))
                     (emit (EvAttachPID pid) (ext p)))) of
          (res, r', s') \<Rightarrow> (res, p\<lparr>registry := r', ext := s'\<rparr>))"
  by (auto simp add: AttachPID_def self_excluded_def Let_def split: prod.splits)

lemma AttachPID_registers_events:
  assumes "\<not> self_excluded E p pid" "os_Readlink E (exePath_of E p pid) = Inr binPath"
    "\<not> MatchString internalProcessRegex binPath"
  shows "\<exists>effs. events (ext (snd (AttachPID E pid p))) =
            events (ext p) @ [EvAttachPID pid, EvReadlink (exePath_of E p pid) (Inr binPath),
                              EvRegister binPath pid] @ effs
          \<and> list_all is_effect effs"
proof -
  let ?s = "emit (EvRegister binPath pid)
                  (emit (EvReadlink (exePath_of E p pid) (Inr binPath))
                     (emit (EvAttachPID pid) (ext p)))"
  obtain res r' s' where
    R: "Register E binPath pid (registerCBCreator E) IgnoreCB (registry p) ?s = (res, r', s')"
    by (cases "Register E binPath pid (registerCBCreator E) IgnoreCB (registry p) ?s")
  have "grows ?s s'" using grows_Register [of ?s E binPath pid "registry p"] R by simp
  then show ?thesis
    by (auto simp: AttachPID_registers [OF assms] R grows_def)
qed

lemma AttachPID_config [simp]:
  "cfg_GoTLSExcludeSelf (snd (AttachPID E pid p)) = cfg_GoTLSExcludeSelf p"
  "procRoot (snd (AttachPID E pid p)) = procRoot p"
  by (auto simp: AttachPID_def Let_def split: sum.splits prod.splits)

lemma DetachPID_config [simp]:
  "cfg_GoTLSExcludeSelf (snd (DetachPID E pid p)) = cfg_GoTLSExcludeSelf p"
  "procRoot (snd (DetachPID E pid p)) = procRoot p"
  by (auto simp: DetachPID_def Let_def split: sum.splits prod.splits)

text \<open>
  Claim C10. Whenever the \<open>Readlink\<close> of a call of \<open>AttachPID\<close> fails, the call
  returns the error of \<open>Readlink\<close>, the path read was the \<open>exe\<close> link of the
  process under the proc root, \<open>Register\<close> was not called, and the registry, the
  manager's probes and the lookup table are as before the call. The process is then not
  one excluded as the agent itself: such a process is turned away before its link is
  read.
\<close>

theorem unresolved_path_is_not_registered:
  assumes "AttachPID E pid p = (res, p')"
      and "EvReadlink path (Inl err) \<in> set (new_events (ext p) (ext p'))"
  shows "res = Some err \<and> path = exePath_of E p pid \<and> os_Readlink E path = Inl err
       \<and> \<not> (cfg_GoTLSExcludeSelf p \<and> pid = word_of_int (os_Getpid E))
       \<and> registry p' = registry p
       \<and> (\<forall>binPath q. EvRegister binPath q \<notin> set (new_events (ext p) (ext p')))
       \<and> manager_Probes (ext p') = manager_Probes (ext p)
       \<and> offsetsDataMap (ext p') = offsetsDataMap (ext p)"
proof (cases "self_excluded E p pid")
  case True
  from AttachPID_self [OF True] assms show ?thesis
    by (auto simp: new_events_def)
next
  case False
  show ?thesis
  proof (cases "os_Readlink E (exePath_of E p pid)")
    case (Inl e)
    from AttachPID_unresolved [OF False Inl] assms Inl False show ?thesis
      by (auto simp: new_events_def self_excluded_def)
  next
    case (Inr binPath)
    show ?thesis
    proof (cases "MatchString internalProcessRegex binPath")
      case True
      from AttachPID_internal [OF False Inr True] assms show ?thesis
        by (auto simp: new_events_def)
    next
      case no: False
      from AttachPID_registers_events [OF False Inr no] assms(1)
      obtain effs where
        "events (ext p') = events (ext p) @ [EvAttachPID pid,
           EvReadlink (exePath_of E p pid) (Inr binPath), EvRegister binPath pid] @ effs"
        "list_all is_effect effs"
        by auto
      with assms(2) have False
        by (auto simp: new_events_def list_all_iff)
      then show ?thesis ..
    qed
  qed
qed

lemma env0_paths:
  "exePath_of env0 prog0 99 = ''/proc/99/exe''"
  "exePath_of env0 prog0 7 = ''/proc/7/exe''"
  "exePath_of env0 prog0 42 = ''/proc/42/exe''"
  "exePath_of env0 prog0 43 = ''/proc/43/exe''"
  "exePath_of env0 prog0 50 = ''/proc/50/exe''"
  by (simp_all add: exePath_of_def env0_def prog0_def join_slash_def FormatUint.simps)

lemma env0_not_self:
  "\<not> self_excluded env0 prog0 99" "\<not> self_excluded env0 prog0 7"
  "\<not> self_excluded env0 prog0 42" "\<not> self_excluded env0 prog0 43"
  "\<not> self_excluded env0 prog0 50" "self_excluded env0 prog0 1"
  by (simp_all add: self_excluded_def env0_def prog0_def)

theorem unresolved_path_is_not_registered_witness:
  "EvReadlink ''/proc/99/exe'' (Inl (ErrOther ''no such file or directory''))
     \<in> set (new_events (ext prog0) (ext (snd (AttachPID env0 99 prog0))))
   \<and> fst (AttachPID env0 99 prog0) = Some (ErrOther ''no such file or directory'')
   \<and> registry (snd (AttachPID env0 99 prog0)) = registry prog0
   \<and> manager_Probes (ext (snd (AttachPID env0 99 prog0))) = manager_Probes (ext prog0)"
proof -
  have r: "os_Readlink env0 (exePath_of env0 prog0 99) = Inl (ErrOther ''no such file or directory'')"
    by (simp add: env0_paths) (simp add: env0_def)
  have e: "EvReadlink ''/proc/99/exe'' (Inl (ErrOther ''no such file or directory''))
     \<in> set (new_events (ext prog0) (ext (snd (AttachPID env0 99 prog0))))"
    by (simp add: AttachPID_unresolved [OF env0_not_self(1) r] new_events_def env0_paths)
  have a: "AttachPID env0 99 prog0 = (fst (AttachPID env0 99 prog0), snd (AttachPID env0 99 prog0))"
    by simp
  show ?thesis
    using unresolved_path_is_not_registered [OF a e] e by simp
qed

text \<open>
  Claim C6. A call of \<open>AttachPID\<close> for the agent's own process, when the configuration
  excludes the agent, returns \<open>ErrSelfExcluded\<close>; a call that reads an executable
  path matching the pattern of internal processes returns
  \<open>ErrInternalDDogProcessRejected\<close>. In both cases \<open>Register\<close> is not called, and
  the registry, the manager's probes and the lookup table are as before the call.
\<close>

theorem excluded_pid_is_not_registered:
  assumes "AttachPID E pid p = (res, p')"
  shows "(cfg_GoTLSExcludeSelf p \<and> pid = word_of_int (os_Getpid E) \<longrightarrow>
            res = Some ErrSelfExcluded
          \<and> registry p' = registry p
          \<and> (\<forall>binPath q. EvRegister binPath q \<notin> set (new_events (ext p) (ext p')))
          \<and> manager_Probes (ext p') = manager_Probes (ext p)
          \<and> offsetsDataMap (ext p') = offsetsDataMap (ext p))
       \<and> (\<forall>path binPath.
            EvReadlink path (Inr binPath) \<in> set (new_events (ext p) (ext p')) \<and>
            MatchString internalProcessRegex binPath \<longrightarrow>
            res = Some ErrInternalDDogProcessRejected
          \<and> registry p' = registry p
          \<and> (\<forall>b q. EvRegister b q \<notin> set (new_events (ext p) (ext p')))
          \<and> manager_Probes (ext p') = manager_Probes (ext p)
          \<and> offsetsDataMap (ext p') = offsetsDataMap (ext p))"
proof (cases "self_excluded E p pid")
  case True
  from AttachPID_self [OF True] assms True show ?thesis
    by (auto simp: new_events_def self_excluded_def)
next
  case False
  show ?thesis
  proof (cases "os_Readlink E (exePath_of E p pid)")
    case (Inl e)
    from AttachPID_unresolved [OF False Inl] assms False show ?thesis
      by (auto simp: new_events_def self_excluded_def)
  next
    case (Inr binPath)
    show ?thesis
    proof (cases "MatchString internalProcessRegex binPath")
      case True
      from AttachPID_internal [OF False Inr True] assms False show ?thesis
        by (auto simp: new_events_def self_excluded_def)
    next
      case no: False
      from AttachPID_registers_events [OF False Inr no] assms(1)
      obtain effs where
        "events (ext p') = events (ext p) @ [EvAttachPID pid,
           EvReadlink (exePath_of E p pid) (Inr binPath), EvRegister binPath pid] @ effs"
        "list_all is_effect effs"
        by auto
      with no False show ?thesis
        by (auto simp: new_events_def list_all_iff self_excluded_def)
    qed
  qed
qed

lemma internal_paths:
  "MatchString internalProcessRegex ''/opt/datadog-agent/embedded/bin/trace-agent''"
  "\<not> MatchString internalProcessRegex ''/usr/bin/app''"
  by code_simp+

theorem excluded_pid_is_not_registered_witness:
  "cfg_GoTLSExcludeSelf prog0 \<and> (1 :: pid) = word_of_int (os_Getpid env0)
   \<and> fst (AttachPID env0 1 prog0) = Some ErrSelfExcluded
   \<and> registry (snd (AttachPID env0 1 prog0)) = registry prog0
   \<and> EvReadlink ''/proc/7/exe'' (Inr ''/opt/datadog-agent/embedded/bin/trace-agent'')
       \<in> set (new_events (ext prog0) (ext (snd (AttachPID env0 7 prog0))))
   \<and> MatchString internalProcessRegex ''/opt/datadog-agent/embedded/bin/trace-agent''
   \<and> fst (AttachPID env0 7 prog0) = Some ErrInternalDDogProcessRejected
   \<and> registry (snd (AttachPID env0 7 prog0)) = registry prog0"
proof -
  have s: "cfg_GoTLSExcludeSelf prog0" "(1 :: pid) = word_of_int (os_Getpid env0)"
    by (simp_all add: prog0_def env0_def)
  have r: "os_Readlink env0 (exePath_of env0 prog0 7) =
             Inr ''/opt/datadog-agent/embedded/bin/trace-agent''"
    by (simp add: env0_paths) (simp add: env0_def)
  have e: "EvReadlink ''/proc/7/exe'' (Inr ''/opt/datadog-agent/embedded/bin/trace-agent'')
       \<in> set (new_events (ext prog0) (ext (snd (AttachPID env0 7 prog0))))"
    by (simp add: AttachPID_internal [OF env0_not_self(2) r internal_paths(1)] new_events_def
          env0_paths)
  have a1: "AttachPID env0 1 prog0 = (fst (AttachPID env0 1 prog0), snd (AttachPID env0 1 prog0))"
    and a7: "AttachPID env0 7 prog0 = (fst (AttachPID env0 7 prog0), snd (AttachPID env0 7 prog0))"
    by simp_all
  show ?thesis
    using excluded_pid_is_not_registered [OF a1] excluded_pid_is_not_registered [OF a7]
          s e internal_paths(1)
    by blast
qed

subsection \<open>Duplicate registration\<close>

lemma exePath_of_procRoot: "procRoot p = procRoot p' \<Longrightarrow> exePath_of E p pid = exePath_of E p' pid"
  by (simp add: exePath_of_def)

lemma self_excluded_cfg:
  "cfg_GoTLSExcludeSelf p = cfg_GoTLSExcludeSelf p' \<Longrightarrow> self_excluded E p pid = self_excluded E p' pid"
  by (simp add: self_excluded_def)

lemma env0_readlink:
  "os_Readlink env0 ''/proc/42/exe'' = Inr ''/usr/bin/app''"
  "os_Readlink env0 ''/proc/43/exe'' = Inr ''/usr/bin/app''"
  by (simp_all add: env0_def)

lemma prog1_registry:
  "registry prog1 =
     \<lparr>entries = [(binID0, \<lparr>entry_path = path0, entry_pids = [42], entry_handles = probeIDs0\<rparr>)],
      callbacks = [FirstRegisterCB binID0 True]\<rparr>"
proof -
  have r: "os_Readlink env0 (exePath_of env0 prog0 42) = Inr ''/usr/bin/app''"
    by (simp add: env0_paths env0_readlink)
  show ?thesis
    unfolding prog1_def AttachPID_registers [OF env0_not_self(3) r internal_paths(2)]
    by (simp add: Register_def invoked_def NewFileRegistry_def prog0_def callback_defs host_defs
          split: prod.splits)
qed

lemma prog1_config: "cfg_GoTLSExcludeSelf prog1 = True" "procRoot prog1 = ''/proc''"
  by (simp_all add: prog1_def) (simp_all add: prog0_def)

lemma prog1_42:
  "\<not> self_excluded env0 prog1 42" "os_Readlink env0 (exePath_of env0 prog1 42) = Inr ''/usr/bin/app''"
  "\<not> self_excluded env0 prog1 43" "os_Readlink env0 (exePath_of env0 prog1 43) = Inr ''/usr/bin/app''"
  by (simp_all add: self_excluded_def prog1_config exePath_of_def join_slash_def FormatUint.simps
        env0_def)

text \<open>
  Claim C8. When \<open>AttachPID\<close> returns an error that is, or wraps, the error of a path
  already registered, \<open>GoTLSAttachPID\<close> on the enabled program returns nil, and
  leaves the program as \<open>AttachPID\<close> left it.
\<close>

theorem duplicate_registration_is_benign:
  assumes "AttachPID E pid p = (Some err, p')"
      and "errors_Is err ErrPathIsAlreadyRegistered"
  shows "GoTLSAttachPID E pid (Some p) = (None, Some p')"
  using assms by (simp add: GoTLSAttachPID_def)

theorem duplicate_registration_is_benign_witness:
  "AttachPID env0 42 prog1 = (Some ErrPathIsAlreadyRegistered, snd (AttachPID env0 42 prog1))
   \<and> errors_Is ErrPathIsAlreadyRegistered ErrPathIsAlreadyRegistered
   \<and> GoTLSAttachPID env0 42 (Some prog1) = (None, Some (snd (AttachPID env0 42 prog1)))"
proof -
  have "fst (AttachPID env0 42 prog1) = Some ErrPathIsAlreadyRegistered"
    unfolding AttachPID_registers [OF prog1_42(1) prog1_42(2) internal_paths(2)]
    by (simp add: Register_def prog1_registry env0_def path0_def split: prod.splits)
  then have a: "AttachPID env0 42 prog1 =
      (Some ErrPathIsAlreadyRegistered, snd (AttachPID env0 42 prog1))"
    by (metis prod.collapse)
  have i: "errors_Is ErrPathIsAlreadyRegistered ErrPathIsAlreadyRegistered" by simp
  show ?thesis
    using duplicate_registration_is_benign [OF a i] a i by simp
qed

subsection \<open>The sweep\<close>

lemma effect_quiet: "is_effect e \<Longrightarrow> quiet e"
  by (cases e) (auto simp: quiet_def)

lemma effects_quiet: "list_all is_effect es \<Longrightarrow> list_all quiet es"
  by (induction es) (auto simp: effect_quiet)

lemma AttachPID_events:
  "\<exists>rest. events (ext (snd (AttachPID E pid p))) = events (ext p) @ EvAttachPID pid # rest
        \<and> list_all quiet rest"
proof (cases "self_excluded E p pid")
  case True
  from AttachPID_self [OF True] show ?thesis by simp
next
  case False
  show ?thesis
  proof (cases "os_Readlink E (exePath_of E p pid)")
    case (Inl e)
    from AttachPID_unresolved [OF False Inl] show ?thesis by (simp add: quiet_def)
  next
    case (Inr binPath)
    show ?thesis
    proof (cases "MatchString internalProcessRegex binPath")
      case True
      from AttachPID_internal [OF False Inr True] show ?thesis by (simp add: quiet_def)
    next
      case no: False
      from AttachPID_registers_events [OF False Inr no]
      obtain effs where e: "events (ext (snd (AttachPID E pid p))) =
            events (ext p) @ [EvAttachPID pid, EvReadlink (exePath_of E p pid) (Inr binPath),
                              EvRegister binPath pid] @ effs" "list_all is_effect effs"
        by blast
      have "list_all quiet
              ([EvReadlink (exePath_of E p pid) (Inr binPath), EvRegister binPath pid] @ effs)"
        using effects_quiet [OF e(2)] by (simp add: quiet_def)
      then show ?thesis using e(1) by auto
    qed
  qed
qed

lemma DetachPID_events:
  "\<exists>rest. events (ext (snd (DetachPID E pid p))) = events (ext p) @ EvDetachPID pid # rest
        \<and> list_all quiet rest"
proof -
  let ?s = "emit (EvUnregister pid) (emit (EvDetachPID pid) (ext p))"
  obtain res r' s' where U: "Unregister pid (unregisterCBCreator E) (registry p) ?s = (res, r', s')"
    by (cases "Unregister pid (unregisterCBCreator E) (registry p) ?s")
  have "grows ?s s'" using grows_Unregister [of ?s pid E "registry p"] U by simp
  then obtain effs where e: "events s' = events ?s @ effs" "list_all is_effect effs"
    by (auto simp: grows_def)
  have "list_all quiet (EvUnregister pid # effs)"
    using effects_quiet [OF e(2)] by (simp add: quiet_def)
  then show ?thesis
    using e(1) by (auto simp: DetachPID_def U Let_def)
qed

lemma calls_of_quiet: "list_all quiet rest \<Longrightarrow> calls_of rest = []"
  by (induction rest) (auto simp: calls_of_def quiet_def)

lemma lifecycle_of_quiet: "list_all quiet rest \<Longrightarrow> filter is_lifecycle rest = []"
  by (induction rest) (auto simp: quiet_def)

lemma sync_visit_calls:
  "sync_visit E procs (dc, p) = (dc', p') \<Longrightarrow>
     dc' = snd (sweep dc (map word_of_int procs)) \<and>
     (\<exists>evs. events (ext p') = events (ext p) @ evs
          \<and> calls_of evs = map EvAttachPID (fst (sweep dc (map word_of_int procs)))
          \<and> filter is_lifecycle evs = [])"
proof (induction procs arbitrary: dc p)
  case Nil
  then show ?case by (simp add: calls_of_def)
next
  case (Cons a procs)
  show ?case
  proof (cases "word_of_int a \<in> set dc")
    case True
    with Cons.prems have "sync_visit E procs (removeAll (word_of_int a) dc, p) = (dc', p')"
      by simp
    from Cons.IH [OF this] True show ?thesis by simp
  next
    case False
    let ?p1 = "snd (AttachPID E (word_of_int a) p)"
    from False Cons.prems have "sync_visit E procs (dc, ?p1) = (dc', p')"
      by simp
    from Cons.IH [OF this] obtain evs where
      1: "dc' = snd (sweep dc (map word_of_int procs))"
         "events (ext p') = events (ext ?p1) @ evs"
         "calls_of evs = map EvAttachPID (fst (sweep dc (map word_of_int procs)))"
         "filter is_lifecycle evs = []"
      by blast
    from AttachPID_events [of E "word_of_int a" p] obtain rest where
      2: "events (ext ?p1) = events (ext p) @ EvAttachPID (word_of_int a) # rest"
         "list_all quiet rest"
      by blast
    have 3: "calls_of (EvAttachPID (word_of_int a) # rest @ evs) =
             EvAttachPID (word_of_int a) # map EvAttachPID (fst (sweep dc (map word_of_int procs)))"
      using calls_of_quiet [OF 2(2)] 1(3) by (simp add: calls_of_def)
    have 4: "filter is_lifecycle (EvAttachPID (word_of_int a) # rest @ evs) = []"
      using lifecycle_of_quiet [OF 2(2)] 1(4) by simp
    show ?thesis
      using False 1(1)
      apply (simp add: split_beta)
      apply (rule exI [of _ "EvAttachPID (word_of_int a) # rest @ evs"])
      using 3 4 1(2) 2(1) apply simp
      done
  qed
qed

lemma fold_exit_calls:
  "\<exists>evs. events (ext (fold (handleProcessExit E) ds p)) = events (ext p) @ evs
       \<and> calls_of evs = map EvDetachPID ds
       \<and> filter is_lifecycle evs = []"
proof (induction ds arbitrary: p)
  case Nil
  then show ?case by (simp add: calls_of_def)
next
  case (Cons d ds)
  let ?p1 = "handleProcessExit E d p"
  from DetachPID_events [of E d p] obtain rest where
    2: "events (ext ?p1) = events (ext p) @ EvDetachPID d # rest" "list_all quiet rest"
    by (auto simp: handleProcessExit_def)
  from Cons.IH [of ?p1] obtain evs where
    1: "events (ext (fold (handleProcessExit E) ds ?p1)) = events (ext ?p1) @ evs"
       "calls_of evs = map EvDetachPID ds" "filter is_lifecycle evs = []"
    by blast
  have 3: "calls_of (EvDetachPID d # rest @ evs) = EvDetachPID d # map EvDetachPID ds"
    using calls_of_quiet [OF 2(2)] 1(2) by (simp add: calls_of_def)
  have 4: "filter is_lifecycle (EvDetachPID d # rest @ evs) = []"
    using lifecycle_of_quiet [OF 2(2)] 1(3) by simp
  show ?case
    apply simp
    apply (rule exI [of _ "EvDetachPID d # rest @ evs"])
    using 3 4 1(1) 2(1) apply simp
    done
qed

lemma sync_events:
  "\<exists>evs. events (ext (sync E procs p)) = events (ext p) @ evs
       \<and> calls_of evs =
           map EvAttachPID
             (fst (sweep (GetRegisteredProcesses (registry p)) (map word_of_int procs))) @
           map EvDetachPID
             (range_pids E (snd (sweep (GetRegisteredProcesses (registry p)) (map word_of_int procs))))
       \<and> filter is_lifecycle evs = []"
proof -
  let ?c = "GetRegisteredProcesses (registry p)"
  obtain dc' p' where v: "sync_visit E procs (?c, p) = (dc', p')"
    by (cases "sync_visit E procs (?c, p)")
  from sync_visit_calls [OF v] obtain e1 where
    1: "dc' = snd (sweep ?c (map word_of_int procs))"
       "events (ext p') = events (ext p) @ e1"
       "calls_of e1 = map EvAttachPID (fst (sweep ?c (map word_of_int procs)))"
       "filter is_lifecycle e1 = []"
    by blast
  from fold_exit_calls [of E "range_pids E dc'" p'] obtain e2 where
    2: "events (ext (fold (handleProcessExit E) (range_pids E dc') p')) = events (ext p') @ e2"
       "calls_of e2 = map EvDetachPID (range_pids E dc')" "filter is_lifecycle e2 = []"
    by blast
  show ?thesis
    apply (rule exI [of _ "e1 @ e2"])
    using 1 2 v apply (simp add: sync_def calls_of_def)
    done
qed

text \<open>The state one sweep leaves: the attachments, then the detachments.\<close>

lemma sync_visit_state:
  "sync_visit E procs (dc, p) =
     (snd (sweep dc (map word_of_int procs)),
      fold (\<lambda>a q. snd (AttachPID E a q)) (fst (sweep dc (map word_of_int procs))) p)"
  by (induction procs arbitrary: dc p) (simp_all add: split_beta)

lemma handleProcessExit_fold:
  "fold (handleProcessExit E) ds p = fold (\<lambda>c q. snd (DetachPID E c q)) ds p"
  by (induction ds arbitrary: p) (simp_all add: handleProcessExit_def)

lemma sync_state:
  "sync E procs p =
     fold (\<lambda>c q. snd (DetachPID E c q))
       (range_pids E (snd (sweep (GetRegisteredProcesses (registry p)) (map word_of_int procs))))
       (fold (\<lambda>a q. snd (AttachPID E a q))
          (fst (sweep (GetRegisteredProcesses (registry p)) (map word_of_int procs))) p)"
  by (simp add: sync_def sync_visit_state handleProcessExit_fold)

lemma sweep_distinct:
  "distinct qs \<Longrightarrow>
     fst (sweep cs qs) = [q \<leftarrow> qs. q \<notin> set cs] \<and> snd (sweep cs qs) = [c \<leftarrow> cs. c \<notin> set qs]"
proof (induction qs arbitrary: cs)
  case Nil
  then show ?case by simp
next
  case (Cons q qs)
  from Cons.prems have nq: "q \<notin> set qs" and dq: "distinct qs" by auto
  have r: "[c \<leftarrow> removeAll q cs. c \<notin> set qs] = [c \<leftarrow> cs. c \<noteq> q \<and> c \<notin> set qs]"
    by (induction cs) auto
  have f: "filter (\<lambda>x. x \<in> set cs \<longrightarrow> x = q) qs = [x \<leftarrow> qs. x \<notin> set cs]"
    using nq by (intro filter_cong) auto
  have g: "q \<notin> set cs \<Longrightarrow> [c \<leftarrow> cs. c \<noteq> q \<and> c \<notin> set qs] = [c \<leftarrow> cs. c \<notin> set qs]"
    by (intro filter_cong) auto
  show ?case
  proof (cases "q \<in> set cs")
    case True
    then show ?thesis using Cons.IH [OF dq, of "removeAll q cs"] by (simp add: r f)
  next
    case False
    then show ?thesis using Cons.IH [OF dq, of cs] by (simp add: split_beta g)
  qed
qed

lemma sweep_remaining_distinct: "distinct cs \<Longrightarrow> distinct (snd (sweep cs qs))"
  by (induction qs arbitrary: cs) (auto simp: split_beta distinct_removeAll)

lemma distinct_candidates: "distinct (GetRegisteredProcesses r)"
  by (simp add: GetRegisteredProcesses_def)

text \<open>
  Claim C3. Let Go's \<open>range\<close> visit each key of a map once. Then one \<open>sync\<close> is
  the sweep: with the registry's processes as candidates, the program it leaves is the
  one obtained by running \<open>AttachPID\<close> on each visible process that is not a
  candidate when it is visited, in the order of the enumeration (a visible candidate is
  struck from the candidates and nothing is done for it), and then \<open>DetachPID\<close> on
  each candidate left. The calls of \<open>AttachPID\<close> and \<open>DetachPID\<close> in the log are
  these and no others, and each candidate left is detached exactly once. When no process
  is enumerated twice, the processes attached are the visible ones outside the snapshot,
  and the candidates left are the processes of the snapshot that are not visible.
\<close>

theorem sync_is_mark_and_sweep:
  assumes "\<forall>xs. mset (range_pids E xs) = mset xs"
  shows "(let candidates = GetRegisteredProcesses (registry p);
              visible = map word_of_int procs;
              attached = fst (sweep candidates visible);
              remaining = snd (sweep candidates visible)
          in sync E procs p =
               fold (\<lambda>c q. snd (DetachPID E c q)) (range_pids E remaining)
                 (fold (\<lambda>a q. snd (AttachPID E a q)) attached p)
           \<and> calls_of (new_events (ext p) (ext (sync E procs p))) =
               map EvAttachPID attached @ map EvDetachPID (range_pids E remaining)
           \<and> (\<forall>c. count_list (range_pids E remaining) c = (if c \<in> set remaining then 1 else 0))
           \<and> (distinct visible \<longrightarrow>
                attached = [q \<leftarrow> visible. q \<notin> set candidates]
              \<and> remaining = [c \<leftarrow> candidates. c \<notin> set visible]))"
proof -
  let ?c = "GetRegisteredProcesses (registry p)"
  let ?v = "map word_of_int procs :: pid list"
  let ?rem = "snd (sweep ?c ?v)"
  from sync_events [of E procs p] obtain evs where
    1: "events (ext (sync E procs p)) = events (ext p) @ evs"
       "calls_of evs =
           map EvAttachPID (fst (sweep ?c ?v)) @ map EvDetachPID (range_pids E ?rem)"
    by blast
  have a: "calls_of (new_events (ext p) (ext (sync E procs p))) =
           map EvAttachPID (fst (sweep ?c ?v)) @ map EvDetachPID (range_pids E ?rem)"
    using 1 by (simp add: new_events_def)
  have d: "distinct ?rem" by (simp add: sweep_remaining_distinct distinct_candidates)
  have "count_list (range_pids E ?rem) c = count (mset (range_pids E ?rem)) c" for c
    by (simp add: count_mset)
  also have "\<dots> c = count (mset ?rem) c" for c using assms by simp
  finally have b: "count_list (range_pids E ?rem) c = (if c \<in> set ?rem then 1 else 0)" for c
    using d by (simp add: count_mset distinct_count_atmost_1 count_list_0_iff)
  show ?thesis
    unfolding Let_def using sync_state [of E procs p] a b sweep_distinct [of ?v ?c] by auto
qed

lemma prog2_registry:
  "registry prog2 =
     \<lparr>entries = [(binID0, \<lparr>entry_path = path0, entry_pids = [42, 43], entry_handles = probeIDs0\<rparr>)],
      callbacks = [FirstRegisterCB binID0 True, AlreadyTrackedCB binID0]\<rparr>"
  unfolding prog2_def AttachPID_registers [OF prog1_42(3) prog1_42(4) internal_paths(2)]
  by (simp add: Register_def invoked_def prog1_registry env0_def path0_def split: prod.splits)

theorem sync_is_mark_and_sweep_witness:
  "(\<forall>xs. mset (range_pids env0 xs) = mset xs)
   \<and> distinct (map word_of_int [42, 50] :: pid list)
   \<and> GetRegisteredProcesses (registry prog2) = [42, 43]
   \<and> sync env0 [42, 50] prog2 = snd (DetachPID env0 43 (snd (AttachPID env0 50 prog2)))
   \<and> calls_of (new_events (ext prog2) (ext (sync env0 [42, 50] prog2))) =
       [EvAttachPID 50, EvDetachPID 43]
   \<and> GetRegisteredProcesses (registry (sync env0 [42, 50] prog2)) = [42]
   \<and> manager_Probes (ext (sync env0 [42, 50] prog2)) = manager_Probes (ext prog2)"
proof -
  have h: "\<forall>xs. mset (range_pids env0 xs) = mset xs" by (simp add: env0_def)
  have d: "distinct (map word_of_int [42, 50] :: pid list)" by simp
  have g: "GetRegisteredProcesses (registry prog2) = [42, 43]"
    by (simp add: GetRegisteredProcesses_def prog2_registry)
  have r: "range_pids env0 = (\<lambda>pids. pids)" by (simp add: env0_def)
  have c: "cfg_GoTLSExcludeSelf prog2 = True" "procRoot prog2 = ''/proc''"
    by (simp_all add: prog2_def prog1_config)
  have n: "\<not> self_excluded env0 prog2 50"
    by (simp add: self_excluded_def env0_def)
  have l: "os_Readlink env0 (exePath_of env0 prog2 50) = Inl (ErrOther ''no such file or directory'')"
    by (simp add: exePath_of_def c join_slash_def FormatUint.simps env0_def)
  let ?p = "snd (AttachPID env0 50 prog2)"
  have a: "registry ?p = registry prog2" "manager_Probes (ext ?p) = manager_Probes (ext prog2)"
    unfolding AttachPID_unresolved [OF n l] by (simp_all add: emit_def)
  have u: "registry (snd (DetachPID env0 43 ?p)) =
             \<lparr>entries = [(binID0, \<lparr>entry_path = path0, entry_pids = [42], entry_handles = probeIDs0\<rparr>)],
              callbacks = [FirstRegisterCB binID0 True, AlreadyTrackedCB binID0]\<rparr>"
          "manager_Probes (ext (snd (DetachPID env0 43 ?p))) = manager_Probes (ext prog2)"
    by (simp_all add: DetachPID_def Unregister_def Let_def a prog2_registry emit_def)
  have t: "GetRegisteredProcesses (registry (snd (DetachPID env0 43 ?p))) = [42]"
    unfolding u(1) by (simp add: GetRegisteredProcesses_def)
  from sync_is_mark_and_sweep [OF h, of prog2 "[42, 50]"]
  have y: "sync env0 [42, 50] prog2 = snd (DetachPID env0 43 ?p)"
          "calls_of (new_events (ext prog2) (ext (sync env0 [42, 50] prog2))) =
             [EvAttachPID 50, EvDetachPID 43]"
    by (auto simp: Let_def r g)
  show ?thesis
    using h d g y t u(2) by simp
qed

lemma map_of_set_entry: "map_of (set_entry k e xs) = (map_of xs)(k \<mapsto> e)"
  by (induction xs) (auto simp: fun_eq_iff)

lemma keys_set_entry:
  "map_of xs k \<noteq> None \<Longrightarrow> map fst (set_entry k e xs) = map fst xs"
  by (induction xs) (auto split: if_splits)

lemma set_set_entry:
  "set (set_entry k e xs) \<subseteq> insert (k, e) (set xs)"
  by (induction xs) (auto split: if_splits)

lemma map_of_delete_entry: "map_of (delete_entry k xs) = (map_of xs)(k := None)"
  by (induction xs) (auto simp: fun_eq_iff)

lemma set_delete_entry: "set (delete_entry k xs) \<subseteq> set xs"
  by (induction xs) (auto split: if_splits)

lemma distinct_delete_entry: "distinct (map fst xs) \<Longrightarrow> distinct (map fst (delete_entry k xs))"
proof (induction xs)
  case Nil
  then show ?case by simp
next
  case (Cons a xs)
  obtain k' e' where a: "a = (k', e')" by (cases a)
  have "fst ` set (delete_entry k xs) \<subseteq> fst ` set xs"
    using set_delete_entry [of k xs] by auto
  with Cons show ?case unfolding a by auto
qed

lemma find_entry:
  "find P xs = Some (k, e) \<Longrightarrow> distinct (map fst xs) \<Longrightarrow>
     map_of xs k = Some e \<and> P (k, e)"
proof (induction xs)
  case Nil
  then show ?case by simp
next
  case (Cons a xs)
  show ?case
  proof (cases "P a")
    case True
    with Cons.prems show ?thesis by auto
  next
    case False
    with Cons.prems have f: "find P xs = Some (k, e)" and d: "distinct (map fst xs)"
      by auto
    from Cons.IH [OF f d] have m: "map_of xs k = Some e" "P (k, e)" by auto
    then have "k \<in> fst ` set xs" by (metis map_of_eq_None_iff option.distinct(1))
    with Cons.prems(2) have "fst a \<noteq> k" by auto
    with m show ?thesis by (cases a) auto
  qed
qed

lemma interested_nonempty:
  "reg_inv r \<Longrightarrow> map_of (entries r) k = Some e \<Longrightarrow> set (entry_pids e) \<noteq> {}"
  by (auto simp: reg_inv_def list_all_iff dest!: map_of_SomeD)

lemma callbacks_invoked [simp]: "callbacks (invoked c r) = callbacks r @ [c]"
  "entries (invoked c r) = entries r"
  by (simp_all add: invoked_def)

lemma interested_cong: "map_of (entries r') = map_of (entries r) \<Longrightarrow> interested r' i = interested r i"
  by (simp add: interested_def)

lemma no_transition:
  "interested r' i = interested r i \<Longrightarrow> \<not> goes_up r r' i \<and> \<not> goes_down r r' i"
  by (simp add: goes_up_def goes_down_def)

lemma step_ok_none:
  assumes "\<And>i. \<not> goes_up r r' i" "\<And>i. \<not> goes_down r r' i"
    and "cbs = [] \<or> cbs = [AlreadyTrackedCB k] \<or> cbs = [FirstRegisterCB k False]"
  shows "step_ok r r' cbs"
  unfolding step_ok_def using assms by auto

lemma step_ok_up:
  assumes "goes_up r r' k" "\<And>i. goes_up r r' i \<Longrightarrow> i = k" "\<And>i. \<not> goes_down r r' i"
  shows "step_ok r r' [FirstRegisterCB k True]"
  unfolding step_ok_def
proof (intro allI)
  fix i
  show "filter (\<lambda>c. c = FirstRegisterCB i True) [FirstRegisterCB k True] =
            (if goes_up r r' i then [FirstRegisterCB i True] else [])
        \<and> filter (is_last_unregister i) [FirstRegisterCB k True] =
            (if goes_down r r' i then [LastUnregisterCB i] else [])
        \<and> (goes_up r r' i \<longrightarrow>
             filter (is_first_register i) [FirstRegisterCB k True] = [FirstRegisterCB i True])"
    using assms(1) assms(2) [of i] assms(3) [of i] by (cases "i = k") auto
qed

lemma step_ok_down:
  assumes "goes_down r r' k" "\<And>i. goes_down r r' i \<Longrightarrow> i = k" "\<And>i. \<not> goes_up r r' i"
  shows "step_ok r r' [LastUnregisterCB k]"
  unfolding step_ok_def
proof (intro allI)
  fix i
  show "filter (\<lambda>c. c = FirstRegisterCB i True) [LastUnregisterCB k] =
            (if goes_up r r' i then [FirstRegisterCB i True] else [])
        \<and> filter (is_last_unregister i) [LastUnregisterCB k] =
            (if goes_down r r' i then [LastUnregisterCB i] else [])
        \<and> (goes_up r r' i \<longrightarrow>
             filter (is_first_register i) [LastUnregisterCB k] = [FirstRegisterCB i True])"
    using assms(1) assms(2) [of i] assms(3) [of i] by (cases "i = k") auto
qed

text \<open>One call of Register.\<close>

lemma Register_step:
  assumes inv: "reg_inv r"
      and R: "Register E path p onFirst onTracked r s = (res, r', s')"
  shows "reg_inv r' \<and> (\<exists>cbs. callbacks r' = callbacks r @ cbs \<and> step_ok r r' cbs)"
proof (cases "NewFilePath E path p")
  case (Inl err)
  with R have "r' = r" by (simp add: Register_def)
  with inv show ?thesis by (simp add: step_ok_none goes_up_def goes_down_def)
next
  case (Inr fp)
  show ?thesis
  proof (cases "map_of (entries r) (ID fp)")
    case None
    then have no: "interested r (ID fp) = {}" by (simp add: interested_def)
    obtain x s1 where F: "onFirst fp s = (x, s1)" by (cases "onFirst fp s")
    show ?thesis
    proof (cases x)
      case (Inl err)
      with R Inr None F have r': "r' = invoked (FirstRegisterCB (ID fp) False) r"
        by (simp add: Register_def)
      have same: "interested r' i = interested r i" for i
        by (rule interested_cong) (simp add: r')
      have "reg_inv r'" using inv by (simp add: reg_inv_def r')
      moreover have "callbacks r' = callbacks r @ [FirstRegisterCB (ID fp) False]"
        by (simp add: r')
      moreover have "step_ok r r' [FirstRegisterCB (ID fp) False]"
        by (rule step_ok_none [where k = "ID fp"]) (simp_all add: goes_up_def goes_down_def same)
      ultimately show ?thesis by blast
    next
      case (Inr h)
      let ?e = "\<lparr>entry_path = fp, entry_pids = [p], entry_handles = h\<rparr>"
      from R \<open>NewFilePath E path p = Inr fp\<close> None F Inr
      have r': "r' = invoked (FirstRegisterCB (ID fp) True) (r\<lparr>entries := entries r @ [(ID fp, ?e)]\<rparr>)"
        by (simp add: Register_def)
      have nk: "ID fp \<notin> fst ` set (entries r)"
        using None by (simp add: map_of_eq_None_iff)
      have inv': "reg_inv r'"
        using inv nk by (auto simp: reg_inv_def r')
      have m: "map_of (entries r') = (map_of (entries r))(ID fp \<mapsto> ?e)"
        using None by (auto simp: r' fun_eq_iff map_add_def split: option.splits)
      have up: "interested r' (ID fp) \<noteq> {}" by (simp add: interested_def m)
      have other: "i \<noteq> ID fp \<Longrightarrow> interested r' i = interested r i" for i
        by (simp add: interested_def m)
      have cb: "callbacks r' = callbacks r @ [FirstRegisterCB (ID fp) True]"
        by (simp add: r')
      have u: "goes_up r r' (ID fp)" using no up by (simp add: goes_up_def)
      have nd: "\<not> goes_down r r' i" for i
        using no other [of i] by (cases "i = ID fp") (simp_all add: goes_down_def)
      have ou: "goes_up r r' i \<Longrightarrow> i = ID fp" for i
        using other [of i] by (cases "i = ID fp") (simp_all add: goes_up_def)
      have "step_ok r r' [FirstRegisterCB (ID fp) True]"
        using u ou nd by (rule step_ok_up)
      with inv' cb show ?thesis by blast
    qed
  next
    case (Some e)
    have ne: "set (entry_pids e) \<noteq> {}" using interested_nonempty [OF inv Some] .
    show ?thesis
    proof (cases "p \<in> set (entry_pids e)")
      case True
      with R Inr Some have "r' = r" by (simp add: Register_def)
      with inv show ?thesis by (simp add: step_ok_none goes_up_def goes_down_def)
    next
      case False
      let ?e = "e\<lparr>entry_pids := entry_pids e @ [p]\<rparr>"
      from R Inr Some False
      have r': "r' = invoked (AlreadyTrackedCB (ID fp)) (r\<lparr>entries := set_entry (ID fp) ?e (entries r)\<rparr>)"
        by (simp add: Register_def)
      have m: "map_of (entries r') = (map_of (entries r))(ID fp \<mapsto> ?e)"
        by (simp add: r' map_of_set_entry)
      have inv': "reg_inv r'"
        using inv Some set_set_entry [of "ID fp" ?e "entries r"]
        by (auto simp: reg_inv_def r' keys_set_entry list_all_iff)
      have a: "interested r (ID fp) \<noteq> {}" using ne Some by (simp add: interested_def)
      have b: "interested r' (ID fp) \<noteq> {}" by (simp add: interested_def m)
      have other: "i \<noteq> ID fp \<Longrightarrow> interested r' i = interested r i" for i
        by (simp add: interested_def m)
      have cb: "callbacks r' = callbacks r @ [AlreadyTrackedCB (ID fp)]"
        by (simp add: r')
      have nu: "\<not> goes_up r r' i" for i
        using a other [of i] by (cases "i = ID fp") (simp_all add: goes_up_def)
      have nd: "\<not> goes_down r r' i" for i
        using b other [of i] by (cases "i = ID fp") (simp_all add: goes_down_def)
      have "step_ok r r' [AlreadyTrackedCB (ID fp)]"
        by (rule step_ok_none [where k = "ID fp"]) (simp_all add: nu nd)
      with inv' cb show ?thesis by blast
    qed
  qed
qed

text \<open>One call of Unregister.\<close>

lemma Unregister_step:
  assumes inv: "reg_inv r"
      and U: "Unregister p onLast r s = (res, r', s')"
  shows "reg_inv r' \<and> (\<exists>cbs. callbacks r' = callbacks r @ cbs \<and> step_ok r r' cbs)"
proof (cases "find (\<lambda>(k, e). p \<in> set (entry_pids e)) (entries r)")
  case None
  with U have "r' = r" by (simp add: Unregister_def)
  with inv show ?thesis by (simp add: step_ok_none goes_up_def goes_down_def)
next
  case (Some ke)
  obtain k e where ke: "ke = (k, e)" by (cases ke)
  have d: "distinct (map fst (entries r))" using inv by (simp add: reg_inv_def)
  from find_entry [OF Some [unfolded ke] d]
  have m: "map_of (entries r) k = Some e" and pin: "p \<in> set (entry_pids e)" by auto
  have a: "interested r k \<noteq> {}" using pin m by (auto simp: interested_def)
  show ?thesis
  proof (cases "removeAll p (entry_pids e) = []")
    case True
    from U Some ke True
    have r': "r' = invoked (LastUnregisterCB k) (r\<lparr>entries := delete_entry k (entries r)\<rparr>)"
      by (simp add: Unregister_def Let_def)
    have m': "map_of (entries r') = (map_of (entries r))(k := None)"
      by (simp add: r' map_of_delete_entry)
    have inv': "reg_inv r'"
      using inv set_delete_entry [of k "entries r"]
      by (auto simp: reg_inv_def r' distinct_delete_entry list_all_iff)
    have b: "interested r' k = {}" by (simp add: interested_def m')
    have other: "i \<noteq> k \<Longrightarrow> interested r' i = interested r i" for i
      by (simp add: interested_def m')
    have cb: "callbacks r' = callbacks r @ [LastUnregisterCB k]"
      by (simp add: r')
    have dn: "goes_down r r' k" using a b by (simp add: goes_down_def)
    have nu: "\<not> goes_up r r' i" for i
      using a other [of i] by (cases "i = k") (simp_all add: goes_up_def)
    have od: "goes_down r r' i \<Longrightarrow> i = k" for i
      using other [of i] by (cases "i = k") (simp_all add: goes_down_def)
    have "step_ok r r' [LastUnregisterCB k]"
      using dn od nu by (rule step_ok_down)
    with inv' cb show ?thesis by blast
  next
    case False
    let ?e = "e\<lparr>entry_pids := removeAll p (entry_pids e)\<rparr>"
    from U Some ke False
    have r': "r' = r\<lparr>entries := set_entry k ?e (entries r)\<rparr>"
      by (simp add: Unregister_def Let_def)
    have m': "map_of (entries r') = (map_of (entries r))(k \<mapsto> ?e)"
      by (simp add: r' map_of_set_entry)
    have inv': "reg_inv r'"
      using inv m False set_set_entry [of k ?e "entries r"]
      by (auto simp: reg_inv_def r' keys_set_entry list_all_iff)
    have "set (removeAll p (entry_pids e)) \<noteq> {}" using False by (metis set_empty)
    then have b: "interested r' k \<noteq> {}" by (simp add: interested_def m' del: set_removeAll)
    have other: "i \<noteq> k \<Longrightarrow> interested r' i = interested r i" for i
      by (simp add: interested_def m')
    have cb: "callbacks r' = callbacks r @ []"
      by (simp add: r')
    have nu: "\<not> goes_up r r' i" for i
      using a other [of i] by (cases "i = k") (simp_all add: goes_up_def)
    have nd: "\<not> goes_down r r' i" for i
      using b other [of i] by (cases "i = k") (simp_all add: goes_down_def)
    have "step_ok r r' []"
      by (rule step_ok_none [where k = k]) (simp_all add: nu nd)
    with inv' cb show ?thesis by blast
  qed
qed

lemma reg_step_ok:
  assumes "reg_inv r" "reg_step E onFirst onTracked onLast op (r, s) = (r', s')"
  shows "reg_inv r' \<and> (\<exists>cbs. callbacks r' = callbacks r @ cbs \<and> step_ok r r' cbs)"
proof (cases op)
  case (OpRegister path p)
  obtain res where "Register E path p onFirst onTracked r s = (res, r', s')"
    using assms(2) OpRegister by (cases "Register E path p onFirst onTracked r s") auto
  from Register_step [OF assms(1) this] show ?thesis .
next
  case (OpUnregister p)
  obtain res where "Unregister p onLast r s = (res, r', s')"
    using assms(2) OpUnregister by (cases "Unregister p onLast r s") auto
  from Unregister_step [OF assms(1) this] show ?thesis .
qed

lemma reg_run_snoc:
  "reg_run E onFirst onTracked onLast (ops @ [op]) s0 =
     reg_step E onFirst onTracked onLast op (reg_run E onFirst onTracked onLast ops s0)"
  by (simp add: reg_run_def)

lemma reg_run_inv: "reg_inv (fst (reg_run E onFirst onTracked onLast ops s0))"
proof (induction ops rule: rev_induct)
  case Nil
  show ?case by (simp add: reg_run_def reg_inv_def NewFileRegistry_def)
next
  case (snoc op ops)
  let ?rs = "reg_run E onFirst onTracked onLast ops s0"
  have "reg_step E onFirst onTracked onLast op (fst ?rs, snd ?rs) =
          (fst (reg_step E onFirst onTracked onLast op ?rs), snd (reg_step E onFirst onTracked onLast op ?rs))"
    by simp
  from reg_step_ok [OF snoc.IH this] show ?case by (simp add: reg_run_snoc)
qed

lemma reg_run_step:
  "\<exists>cbs. callbacks (fst (reg_step E onFirst onTracked onLast op (reg_run E onFirst onTracked onLast ops s0))) =
           callbacks (fst (reg_run E onFirst onTracked onLast ops s0)) @ cbs
       \<and> step_ok (fst (reg_run E onFirst onTracked onLast ops s0))
                  (fst (reg_step E onFirst onTracked onLast op (reg_run E onFirst onTracked onLast ops s0)))
                  cbs"
proof -
  let ?rs = "reg_run E onFirst onTracked onLast ops s0"
  have "reg_step E onFirst onTracked onLast op (fst ?rs, snd ?rs) =
          (fst (reg_step E onFirst onTracked onLast op ?rs), snd (reg_step E onFirst onTracked onLast op ?rs))"
    by simp
  from reg_step_ok [OF reg_run_inv this] show ?thesis by blast
qed

lemma transitions_snoc:
  "transitions dir E onFirst onTracked onLast (ops @ [op]) s0 i =
     transitions dir E onFirst onTracked onLast ops s0 i +
     (if dir (fst (reg_run E onFirst onTracked onLast ops s0))
             (fst (reg_run E onFirst onTracked onLast (ops @ [op]) s0)) i then 1 else 0)"
proof -
  have "[k \<leftarrow> [0..<length ops].
           dir (fst (reg_run E onFirst onTracked onLast (take k (ops @ [op])) s0))
               (fst (reg_run E onFirst onTracked onLast (take (Suc k) (ops @ [op])) s0)) i] =
        [k \<leftarrow> [0..<length ops].
           dir (fst (reg_run E onFirst onTracked onLast (take k ops) s0))
               (fst (reg_run E onFirst onTracked onLast (take (Suc k) ops) s0)) i]"
    by (rule filter_cong) (auto simp: Suc_le_eq)
  then show ?thesis
    by (simp add: transitions_def)
qed

lemma run_totals:
  "length (filter (\<lambda>c. c = FirstRegisterCB i True)
             (callbacks (fst (reg_run E onFirst onTracked onLast ops s0)))) =
     transitions goes_up E onFirst onTracked onLast ops s0 i
   \<and> length (filter (is_last_unregister i)
             (callbacks (fst (reg_run E onFirst onTracked onLast ops s0)))) =
     transitions goes_down E onFirst onTracked onLast ops s0 i"
proof (induction ops rule: rev_induct)
  case Nil
  show ?case by (simp add: reg_run_def NewFileRegistry_def transitions_def)
next
  case (snoc op ops)
  from reg_run_step [of E onFirst onTracked onLast op ops s0] obtain cbs where
    c: "callbacks (fst (reg_run E onFirst onTracked onLast (ops @ [op]) s0)) =
          callbacks (fst (reg_run E onFirst onTracked onLast ops s0)) @ cbs"
       "step_ok (fst (reg_run E onFirst onTracked onLast ops s0))
                (fst (reg_run E onFirst onTracked onLast (ops @ [op]) s0)) cbs"
    by (auto simp: reg_run_snoc)
  from c(2) have
    u: "filter (\<lambda>c. c = FirstRegisterCB i True) cbs =
          (if goes_up (fst (reg_run E onFirst onTracked onLast ops s0))
                      (fst (reg_run E onFirst onTracked onLast (ops @ [op]) s0)) i
           then [FirstRegisterCB i True] else [])" and
    d: "filter (is_last_unregister i) cbs =
          (if goes_down (fst (reg_run E onFirst onTracked onLast ops s0))
                        (fst (reg_run E onFirst onTracked onLast (ops @ [op]) s0)) i
           then [LastUnregisterCB i] else [])"
    by (simp_all add: step_ok_def)
  show ?case
    using snoc.IH by (simp add: c(1) u d transitions_snoc)
qed

text \<open>
  Claim C2, for the registry as the specification describes it. Take any run of
  \<open>Register\<close> and \<open>Unregister\<close> calls from the empty registry, with any processes
  and any callbacks, and any identity. At a further call that takes the identity's
  interested processes from none to some, the first-register callback is invoked for
  the identity exactly once (and succeeds), and the last-unregister callback is not; at
  a call that takes them from some to none, the last-unregister callback is invoked for
  the identity exactly once. No call invokes the last-unregister callback, or has a
  first-register callback succeed, without such a step. So over the whole run the
  successful first-register callbacks of the identity are as many as its steps from
  none to some, and its last-unregister callbacks as many as its steps from some to
  none. (A first-register callback that fails leaves the identity without an entry, and
  the next \<open>Register\<close> invokes it again.)
\<close>

theorem callbacks_fire_once_per_transition:
  "(let r = fst (reg_run E onFirst onTracked onLast ops s0);
        r' = fst (reg_step E onFirst onTracked onLast op (reg_run E onFirst onTracked onLast ops s0));
        cbs = new_callbacks r r'
    in (goes_up r r' i \<longrightarrow>
          filter (is_first_register i) cbs = [FirstRegisterCB i True]
        \<and> filter (is_last_unregister i) cbs = [])
     \<and> (goes_down r r' i \<longrightarrow> filter (is_last_unregister i) cbs = [LastUnregisterCB i])
     \<and> (FirstRegisterCB i True \<in> set cbs \<longrightarrow> goes_up r r' i)
     \<and> (LastUnregisterCB i \<in> set cbs \<longrightarrow> goes_down r r' i))
   \<and> length (filter (\<lambda>c. c = FirstRegisterCB i True)
               (callbacks (fst (reg_run E onFirst onTracked onLast ops s0)))) =
       transitions goes_up E onFirst onTracked onLast ops s0 i
   \<and> length (filter (is_last_unregister i)
               (callbacks (fst (reg_run E onFirst onTracked onLast ops s0)))) =
       transitions goes_down E onFirst onTracked onLast ops s0 i"
proof -
  let ?r = "fst (reg_run E onFirst onTracked onLast ops s0)"
  let ?r' = "fst (reg_step E onFirst onTracked onLast op (reg_run E onFirst onTracked onLast ops s0))"
  from reg_run_step [of E onFirst onTracked onLast op ops s0] obtain cbs where
    c: "callbacks ?r' = callbacks ?r @ cbs" "step_ok ?r ?r' cbs"
    by blast
  have n: "new_callbacks ?r ?r' = cbs" by (simp add: new_callbacks_def c(1))
  from c(2) have
    u: "filter (\<lambda>c. c = FirstRegisterCB i True) cbs =
          (if goes_up ?r ?r' i then [FirstRegisterCB i True] else [])" and
    d: "filter (is_last_unregister i) cbs = (if goes_down ?r ?r' i then [LastUnregisterCB i] else [])" and
    f: "goes_up ?r ?r' i \<longrightarrow> filter (is_first_register i) cbs = [FirstRegisterCB i True]"
    by (simp_all add: step_ok_def)
  have x: "\<not> (goes_up ?r ?r' i \<and> goes_down ?r ?r' i)"
    by (auto simp: goes_up_def goes_down_def)
  have m1: "FirstRegisterCB i True \<in> set cbs \<longrightarrow> goes_up ?r ?r' i"
  proof
    assume "FirstRegisterCB i True \<in> set cbs"
    then have "filter (\<lambda>c. c = FirstRegisterCB i True) cbs \<noteq> []"
      by (auto simp: filter_empty_conv)
    with u show "goes_up ?r ?r' i" by (auto split: if_splits)
  qed
  have m2: "LastUnregisterCB i \<in> set cbs \<longrightarrow> goes_down ?r ?r' i"
  proof
    assume "LastUnregisterCB i \<in> set cbs"
    then have "filter (is_last_unregister i) cbs \<noteq> []"
      by (auto simp: filter_empty_conv intro!: bexI [of _ "LastUnregisterCB i"])
    with d show "goes_down ?r ?r' i" by (auto split: if_splits)
  qed
  have step: "(goes_up ?r ?r' i \<longrightarrow>
          filter (is_first_register i) cbs = [FirstRegisterCB i True]
        \<and> filter (is_last_unregister i) cbs = [])
     \<and> (goes_down ?r ?r' i \<longrightarrow> filter (is_last_unregister i) cbs = [LastUnregisterCB i])
     \<and> (FirstRegisterCB i True \<in> set cbs \<longrightarrow> goes_up ?r ?r' i)
     \<and> (LastUnregisterCB i \<in> set cbs \<longrightarrow> goes_down ?r ?r' i)"
    using u d f x m1 m2 by (auto split: if_splits)
  show ?thesis
    unfolding Let_def n using step run_totals [of i E onFirst onTracked onLast ops s0] by blast
qed

lemma run_none:
  "reg_run env0 counting_first counting_tracked counting_last [] (0, 0) =
     (\<lparr>entries = [], callbacks = []\<rparr>, (0, 0))"
  by (simp add: reg_run_def NewFileRegistry_def)

lemma run_one:
  "reg_step env0 counting_first counting_tracked counting_last (OpRegister ''/usr/bin/app'' 42)
     (\<lparr>entries = [], callbacks = []\<rparr>, (0, 0)) =
     (\<lparr>entries = [(binID0, \<lparr>entry_path = path0, entry_pids = [42], entry_handles = ()\<rparr>)],
       callbacks = [FirstRegisterCB binID0 True]\<rparr>, (1, 0))"
  by (simp add: Register_def invoked_def counting_first_def env0_def path0_def)

lemma run_three:
  "reg_run env0 counting_first counting_tracked counting_last run3 (0, 0) =
     (\<lparr>entries = [(binID0, \<lparr>entry_path = path0, entry_pids = [43], entry_handles = ()\<rparr>)],
       callbacks = [FirstRegisterCB binID0 True, AlreadyTrackedCB binID0]\<rparr>, (1, 0))"
  by (simp add: reg_run_def run3_def NewFileRegistry_def Register_def Unregister_def invoked_def
        counting_first_def counting_tracked_def env0_def path0_def Let_def)

lemma run_four:
  "reg_step env0 counting_first counting_tracked counting_last (OpUnregister 43)
     (\<lparr>entries = [(binID0, \<lparr>entry_path = path0, entry_pids = [43], entry_handles = ()\<rparr>)],
       callbacks = [FirstRegisterCB binID0 True, AlreadyTrackedCB binID0]\<rparr>, (1, 0)) =
     (\<lparr>entries = [],
       callbacks = [FirstRegisterCB binID0 True, AlreadyTrackedCB binID0, LastUnregisterCB binID0]\<rparr>,
      (1, 1))"
  by (simp add: Unregister_def invoked_def counting_last_def Let_def)

theorem callbacks_fire_once_per_transition_witness:
  "goes_up (fst (reg_run env0 counting_first counting_tracked counting_last [] (0, 0)))
      (fst (reg_step env0 counting_first counting_tracked counting_last (OpRegister ''/usr/bin/app'' 42)
             (reg_run env0 counting_first counting_tracked counting_last [] (0, 0)))) binID0
   \<and> new_callbacks (fst (reg_run env0 counting_first counting_tracked counting_last [] (0, 0)))
       (fst (reg_step env0 counting_first counting_tracked counting_last (OpRegister ''/usr/bin/app'' 42)
             (reg_run env0 counting_first counting_tracked counting_last [] (0, 0)))) =
       [FirstRegisterCB binID0 True]
   \<and> goes_down (fst (reg_run env0 counting_first counting_tracked counting_last run3 (0, 0)))
      (fst (reg_step env0 counting_first counting_tracked counting_last (OpUnregister 43)
             (reg_run env0 counting_first counting_tracked counting_last run3 (0, 0)))) binID0
   \<and> filter (is_last_unregister binID0)
       (new_callbacks (fst (reg_run env0 counting_first counting_tracked counting_last run3 (0, 0)))
          (fst (reg_step env0 counting_first counting_tracked counting_last (OpUnregister 43)
             (reg_run env0 counting_first counting_tracked counting_last run3 (0, 0))))) =
       [LastUnregisterCB binID0]
   \<and> LastUnregisterCB binID0 \<in> set
       (new_callbacks (fst (reg_run env0 counting_first counting_tracked counting_last run3 (0, 0)))
          (fst (reg_step env0 counting_first counting_tracked counting_last (OpUnregister 43)
             (reg_run env0 counting_first counting_tracked counting_last run3 (0, 0)))))
   \<and> snd (reg_step env0 counting_first counting_tracked counting_last (OpUnregister 43)
             (reg_run env0 counting_first counting_tracked counting_last run3 (0, 0))) = (1, 1)"
proof -
  have u: "goes_up (fst (reg_run env0 counting_first counting_tracked counting_last [] (0, 0)))
      (fst (reg_step env0 counting_first counting_tracked counting_last (OpRegister ''/usr/bin/app'' 42)
             (reg_run env0 counting_first counting_tracked counting_last [] (0, 0)))) binID0"
    unfolding run_none run_one by (simp add: goes_up_def interested_def)
  have n1: "new_callbacks (fst (reg_run env0 counting_first counting_tracked counting_last [] (0, 0)))
       (fst (reg_step env0 counting_first counting_tracked counting_last (OpRegister ''/usr/bin/app'' 42)
             (reg_run env0 counting_first counting_tracked counting_last [] (0, 0)))) =
       [FirstRegisterCB binID0 True]"
    unfolding run_none run_one by (simp add: new_callbacks_def)
  have d: "goes_down (fst (reg_run env0 counting_first counting_tracked counting_last run3 (0, 0)))
      (fst (reg_step env0 counting_first counting_tracked counting_last (OpUnregister 43)
             (reg_run env0 counting_first counting_tracked counting_last run3 (0, 0)))) binID0"
    unfolding run_three run_four by (simp add: goes_down_def interested_def)
  have n4: "LastUnregisterCB binID0 \<in> set
       (new_callbacks (fst (reg_run env0 counting_first counting_tracked counting_last run3 (0, 0)))
          (fst (reg_step env0 counting_first counting_tracked counting_last (OpUnregister 43)
             (reg_run env0 counting_first counting_tracked counting_last run3 (0, 0)))))"
    unfolding run_three run_four by (simp add: new_callbacks_def)
  have c: "snd (reg_step env0 counting_first counting_tracked counting_last (OpUnregister 43)
             (reg_run env0 counting_first counting_tracked counting_last run3 (0, 0))) = (1, 1)"
    unfolding run_three run_four by simp
  show ?thesis
    using callbacks_fire_once_per_transition
            [of env0 counting_first counting_tracked counting_last run3 "(0, 0)" "OpUnregister 43" binID0]
          callbacks_fire_once_per_transition
            [of env0 counting_first counting_tracked counting_last "[]" "(0, 0)"
                "OpRegister ''/usr/bin/app'' 42" binID0]
          u n1 d n4 c
    unfolding Let_def by blast
qed

lemma lifecycle_of_append [simp]: "lifecycle_of (xs @ ys) = lifecycle_of xs @ lifecycle_of ys"
  by (simp add: lifecycle_of_def)

lemma calls_of_append [simp]: "calls_of (xs @ ys) = calls_of xs @ calls_of ys"
  by (simp add: calls_of_def)

lemma after_event_append:
  "e \<in> set xs \<Longrightarrow> after_event e (xs @ ys) = after_event e xs @ ys"
  by (induction xs) auto

lemma after_event_first:
  "e \<notin> set xs \<Longrightarrow> after_event e (xs @ e # ys) = ys"
  by (induction xs) auto

lemma stopped_progress: "monitor_stopped lp \<Longrightarrow> EvMonitorStop \<in> set (loop_progress lp)"
proof (cases lp)
  case (LoopDeferred d)
  assume "monitor_stopped lp"
  with LoopDeferred show ?thesis by (cases d) simp_all
qed simp_all

lemma log_shape_mem:
  assumes "log_shape st lp evs" "monitor_stopped lp"
  shows "EvMonitorStop \<in> set evs"
proof -
  from assms(1) have "\<exists>a b. lifecycle_of evs = a @ loop_progress lp @ b"
    unfolding log_shape_def by blast
  then obtain a b where "lifecycle_of evs = a @ loop_progress lp @ b" by blast
  then have "set (loop_progress lp) \<subseteq> set (lifecycle_of evs)" by auto
  with stopped_progress [OF assms(2)] have "EvMonitorStop \<in> set (lifecycle_of evs)"
    by blast
  then show ?thesis by (simp add: lifecycle_of_def)
qed

text \<open>Events that are not of starting and stopping leave the shape as it is.\<close>

lemma log_shape_append:
  assumes "log_shape st lp evs" "lifecycle_of new = []" "monitor_stopped lp \<longrightarrow> calls_of new = []"
  shows "log_shape st lp (evs @ new)"
proof (cases "monitor_stopped lp")
  case True
  from log_shape_mem [OF assms(1) True]
  have "after_event EvMonitorStop (evs @ new) = after_event EvMonitorStop evs @ new"
    by (rule after_event_append)
  with assms True show ?thesis by (simp add: log_shape_def)
next
  case False
  with assms show ?thesis by (simp add: log_shape_def)
qed

lemma quiet_no_lifecycle: "list_all quiet new \<Longrightarrow> lifecycle_of new = []"
  by (simp add: lifecycle_of_def lifecycle_of_quiet)

lemma effects_no_lifecycle: "list_all is_effect new \<Longrightarrow> lifecycle_of new = [] \<and> calls_of new = []"
  using effects_quiet [of new] by (simp add: quiet_no_lifecycle calls_of_quiet)

lemma lifecycle_set: "is_lifecycle e \<Longrightarrow> (e \<in> set evs) = (e \<in> set (lifecycle_of evs))"
  by (simp add: lifecycle_of_def)

lemma sys_event_fields [simp]:
  "prog (sys_event e sys) = record_event e (prog sys)"
  "done_closed (sys_event e sys) = done_closed sys"
  "wg_counter (sys_event e sys) = wg_counter sys"
  "exec_subscribed (sys_event e sys) = exec_subscribed sys"
  "exit_subscribed (sys_event e sys) = exit_subscribed sys"
  "in_flight (sys_event e sys) = in_flight sys"
  "loop_at (sys_event e sys) = loop_at sys"
  "stop_at (sys_event e sys) = stop_at sys"
  by (simp_all add: sys_event_def)

text \<open>A step that only adds events which are not of starting and stopping.\<close>

lemma sys_inv_quiet_step:
  assumes inv: "sys_inv e0 sys"
      and ev: "events (ext p') = events (ext (prog sys)) @ new"
      and lc: "lifecycle_of new = []"
      and cl: "monitor_stopped (loop_at sys) \<longrightarrow> calls_of new = []"
      and rg: "cleared (loop_at sys) \<longrightarrow> entries (registry p') = []"
      and fl: "monitor_stopped (loop_at sys) \<longrightarrow> q = []"
  shows "sys_inv e0 (sys\<lparr>prog := p', in_flight := q\<rparr>)"
proof -
  from inv obtain evs where
    e: "events (ext (prog sys)) = e0 @ evs" "log_shape (stop_at sys) (loop_at sys) evs"
    by (auto simp: sys_inv_def)
  have "events (ext p') = e0 @ (evs @ new)" by (simp add: ev e(1))
  moreover have "log_shape (stop_at sys) (loop_at sys) (evs @ new)"
    using e(2) lc cl by (rule log_shape_append)
  ultimately have "\<exists>evs. events (ext p') = e0 @ evs \<and> log_shape (stop_at sys) (loop_at sys) evs"
    by blast
  with inv rg fl show ?thesis by (simp add: sys_inv_def)
qed

lemma not_stopped:
  "\<not> exec_unsubscribed lp \<Longrightarrow> \<not> monitor_stopped lp"
  "\<not> unsubscribed lp \<Longrightarrow> \<not> monitor_stopped lp"
  "\<not> monitor_stopped lp \<Longrightarrow> \<not> cleared lp"
proof -
  show "\<not> exec_unsubscribed lp \<Longrightarrow> \<not> monitor_stopped lp"
  proof (cases lp)
    case (LoopDeferred d)
    assume "\<not> exec_unsubscribed lp"
    with LoopDeferred show ?thesis by (cases d) simp_all
  qed simp_all
  show "\<not> unsubscribed lp \<Longrightarrow> \<not> monitor_stopped lp"
  proof (cases lp)
    case (LoopDeferred d)
    assume "\<not> unsubscribed lp"
    with LoopDeferred show ?thesis by (cases d) simp_all
  qed simp_all
  show "\<not> monitor_stopped lp \<Longrightarrow> \<not> cleared lp"
  proof (cases lp)
    case (LoopDeferred d)
    assume "\<not> monitor_stopped lp"
    with LoopDeferred show ?thesis by (cases d) simp_all
  qed simp_all
qed

lemma step_exec:
  assumes "sys_inv e0 sys"
  shows "sys_inv e0 (step E (ExecNotification pid) sys)"
proof (cases "exec_subscribed sys")
  case False
  with assms show ?thesis by simp
next
  case True
  with assms have n: "\<not> exec_unsubscribed (loop_at sys)" by (simp add: sys_inv_def)
  have "sys_inv e0 (sys\<lparr>prog := prog sys, in_flight := in_flight sys @ [HandleProcessStart pid]\<rparr>)"
    using not_stopped(1) [OF n] not_stopped(3) [OF not_stopped(1) [OF n]]
    by (intro sys_inv_quiet_step [OF assms, where new = "[]"]) (simp_all add: lifecycle_of_def)
  with True show ?thesis by simp
qed

lemma step_exit:
  assumes "sys_inv e0 sys"
  shows "sys_inv e0 (step E (ExitNotification pid) sys)"
proof (cases "exit_subscribed sys")
  case False
  with assms show ?thesis by simp
next
  case True
  with assms have n: "\<not> unsubscribed (loop_at sys)" by (simp add: sys_inv_def)
  have "sys_inv e0 (sys\<lparr>prog := prog sys, in_flight := in_flight sys @ [HandleProcessExit pid]\<rparr>)"
    using not_stopped(2) [OF n] not_stopped(3) [OF not_stopped(2) [OF n]]
    by (intro sys_inv_quiet_step [OF assms, where new = "[]"]) (simp_all add: lifecycle_of_def)
  with True show ?thesis by simp
qed

lemma run_handler_events:
  "\<exists>new. events (ext (run_handler E h p)) = events (ext p) @ new \<and> lifecycle_of new = []"
proof (cases h)
  case (HandleProcessStart pid)
  from AttachPID_events [of E pid p] obtain rest where
    r: "events (ext (snd (AttachPID E pid p))) = events (ext p) @ EvAttachPID pid # rest"
       "list_all quiet rest"
    by blast
  have "lifecycle_of (EvAttachPID pid # rest) = []"
    using quiet_no_lifecycle [OF r(2)] by (simp add: lifecycle_of_def)
  with r(1) HandleProcessStart show ?thesis
    by (auto simp: handleProcessStart_def)
next
  case (HandleProcessExit pid)
  from DetachPID_events [of E pid p] obtain rest where
    r: "events (ext (snd (DetachPID E pid p))) = events (ext p) @ EvDetachPID pid # rest"
       "list_all quiet rest"
    by blast
  have "lifecycle_of (EvDetachPID pid # rest) = []"
    using quiet_no_lifecycle [OF r(2)] by (simp add: lifecycle_of_def)
  with r(1) HandleProcessExit show ?thesis
    by (auto simp: handleProcessExit_def)
qed

lemma step_handler:
  assumes "sys_inv e0 sys"
  shows "sys_inv e0 (step E (HandlerRuns n) sys)"
proof (cases "n < length (in_flight sys)")
  case False
  with assms show ?thesis by simp
next
  case True
  then have "in_flight sys \<noteq> []" by auto
  with assms have ns: "\<not> monitor_stopped (loop_at sys)" by (auto simp: sys_inv_def)
  from run_handler_events [of E "in_flight sys ! n" "prog sys"] obtain new where
    r: "events (ext (run_handler E (in_flight sys ! n) (prog sys))) = events (ext (prog sys)) @ new"
       "lifecycle_of new = []"
    by blast
  have "sys_inv e0 (sys\<lparr>prog := run_handler E (in_flight sys ! n) (prog sys),
                      in_flight := take n (in_flight sys) @ drop (Suc n) (in_flight sys)\<rparr>)"
    using ns not_stopped(3) [OF ns] r
    by (intro sys_inv_quiet_step [OF assms, where new = new]) simp_all
  with True show ?thesis by simp
qed

lemma step_tick:
  assumes "sys_inv e0 sys"
  shows "sys_inv e0 (step E (SelectTick procs) sys)"
proof (cases "loop_at sys = LoopSelect")
  case False
  with assms show ?thesis by simp
next
  case True
  from sync_events [of E procs "prog sys"] obtain evs where
    r: "events (ext (sync E procs (prog sys))) = events (ext (prog sys)) @ evs"
       "filter is_lifecycle evs = []"
    by blast
  have "sys_inv e0 (sys\<lparr>prog := record_event EvRegistryLog (sync E procs (prog sys)),
                      in_flight := in_flight sys\<rparr>)"
    using True r
    by (intro sys_inv_quiet_step [OF assms, where new = "evs @ [EvRegistryLog]"])
       (simp_all add: lifecycle_of_def)
  with True show ?thesis by simp
qed

lemma step_done:
  assumes "sys_inv e0 sys"
  shows "sys_inv e0 (step E SelectDone sys)"
proof (cases "loop_at sys = LoopSelect \<and> done_closed sys")
  case False
  with assms show ?thesis by auto
next
  case True
  with assms show ?thesis
    by (auto simp: sys_inv_def log_shape_def)
qed

lemma sys_invI:
  assumes "loop_at sys \<noteq> LoopNotStarted"
      and "done_closed sys = (stop_at sys \<noteq> StopNotCalled)"
      and "stop_at sys = StopNotCalled \<longrightarrow> loop_at sys = LoopSelect"
      and "stop_at sys = StopReturned \<longrightarrow> loop_at sys = LoopReturned"
      and "wg_counter sys = (if loop_at sys = LoopReturned then 0 else 1)"
      and "exec_subscribed sys = (\<not> exec_unsubscribed (loop_at sys))"
      and "exit_subscribed sys = (\<not> unsubscribed (loop_at sys))"
      and "monitor_stopped (loop_at sys) \<longrightarrow> in_flight sys = []"
      and "cleared (loop_at sys) \<longrightarrow> entries (registry (prog sys)) = []"
      and "events (ext (prog sys)) = e0 @ evs"
      and "log_shape (stop_at sys) (loop_at sys) evs"
  shows "sys_inv e0 sys"
  unfolding sys_inv_def using assms by blast

lemma not_stopped_progress:
  "\<not> monitor_stopped lp \<Longrightarrow> EvMonitorStop \<notin> set (loop_progress lp)"
proof (cases lp)
  case (LoopDeferred d)
  assume "\<not> monitor_stopped lp"
  with LoopDeferred show ?thesis by (cases d) simp_all
qed simp_all

lemma log_shape_deferred:
  assumes sh: "log_shape StopWaiting lp evs"
      and pr: "loop_progress lp' = loop_progress lp @ [e]"
      and lc: "is_lifecycle e" and nc: "\<not> is_call e"
      and un: "monitor_stopped lp' \<longrightarrow> monitor_stopped lp \<or> e = EvMonitorStop"
  shows "log_shape StopWaiting lp' (evs @ [e])"
proof -
  from sh have l: "lifecycle_of evs = [EvCloseDone] @ loop_progress lp"
    by (simp add: log_shape_def)
  have l': "lifecycle_of (evs @ [e]) = [EvCloseDone] @ loop_progress lp'"
    using l lc by (simp add: pr lifecycle_of_def)
  have c: "calls_of (after_event EvMonitorStop (evs @ [e])) = []" if u': "monitor_stopped lp'"
  proof (cases "monitor_stopped lp")
    case True
    from log_shape_mem [OF sh True]
    have "after_event EvMonitorStop (evs @ [e]) = after_event EvMonitorStop evs @ [e]"
      by (rule after_event_append)
    with sh True nc show ?thesis by (simp add: log_shape_def calls_of_def)
  next
    case False
    with un u' have e: "e = EvMonitorStop" by blast
    have "EvMonitorStop \<notin> set (lifecycle_of evs)"
      using not_stopped_progress [OF False] by (simp add: l)
    then have "EvMonitorStop \<notin> set evs" by (simp add: lifecycle_of_def)
    then have "after_event EvMonitorStop (evs @ [e]) = []"
      unfolding e by (rule after_event_first)
    then show ?thesis by (simp add: calls_of_def)
  qed
  show ?thesis
    unfolding log_shape_def using l' c by simp
qed

lemma entries_Clear [simp]: "entries (fst (Clear f r s)) = []"
  by (simp add: Clear_def split: prod.splits)

lemma step_deferred:
  assumes inv: "sys_inv e0 sys"
  shows "sys_inv e0 (step E DeferredStep sys)"
proof (cases "loop_at sys")
  case (LoopDeferred d)
  from inv obtain evs where
    e: "events (ext (prog sys)) = e0 @ evs" "log_shape (stop_at sys) (loop_at sys) evs"
    by (auto simp: sys_inv_def)
  from inv LoopDeferred have st: "stop_at sys = StopWaiting"
    by (cases "stop_at sys") (auto simp: sys_inv_def)
  from inv LoopDeferred st have fl: "done_closed sys" "wg_counter sys = 1"
    by (auto simp: sys_inv_def)
  have sh: "log_shape StopWaiting (LoopDeferred d) evs"
    using e(2) st LoopDeferred by simp
  show ?thesis
  proof (cases d)
    case DTickerStop
    have "log_shape StopWaiting (LoopDeferred DCleanupExec) (evs @ [EvTickerStop])"
      using sh [unfolded DTickerStop] by (rule log_shape_deferred) simp_all
    then show ?thesis
      using inv LoopDeferred DTickerStop st fl e(1)
      by (intro sys_invI [where evs = "evs @ [EvTickerStop]"]) (simp_all add: sys_inv_def)
  next
    case DCleanupExec
    have "log_shape StopWaiting (LoopDeferred DCleanupExit) (evs @ [EvCleanupExec])"
      using sh [unfolded DCleanupExec] by (rule log_shape_deferred) simp_all
    then show ?thesis
      using inv LoopDeferred DCleanupExec st fl e(1)
      by (intro sys_invI [where evs = "evs @ [EvCleanupExec]"]) (simp_all add: sys_inv_def)
  next
    case DCleanupExit
    have "log_shape StopWaiting (LoopDeferred DMonitorStop) (evs @ [EvCleanupExit])"
      using sh [unfolded DCleanupExit] by (rule log_shape_deferred) simp_all
    then show ?thesis
      using inv LoopDeferred DCleanupExit st fl e(1)
      by (intro sys_invI [where evs = "evs @ [EvCleanupExit]"]) (simp_all add: sys_inv_def)
  next
    case DMonitorStop
    show ?thesis
    proof (cases "in_flight sys = []")
      case False
      with inv LoopDeferred DMonitorStop show ?thesis by simp
    next
      case True
      have "log_shape StopWaiting (LoopDeferred DRegistryClear) (evs @ [EvMonitorStop])"
        using sh [unfolded DMonitorStop] by (rule log_shape_deferred) simp_all
      then show ?thesis
        using inv LoopDeferred DMonitorStop st fl e(1) True
        by (intro sys_invI [where evs = "evs @ [EvMonitorStop]"]) (simp_all add: sys_inv_def)
    qed
  next
    case DRegistryClear
    let ?p = "record_event EvClear (prog sys)"
    obtain r' s' where C: "Clear (unregisterCBCreator E) (registry ?p) (ext ?p) = (r', s')"
      by (cases "Clear (unregisterCBCreator E) (registry ?p) (ext ?p)")
    have r': "entries r' = []" using C by (auto simp: Clear_def split: prod.splits)
    have "grows (ext ?p) s'" using grows_Clear [of "ext ?p" E "registry ?p"] C by simp
    then obtain effs where f: "events s' = events (ext ?p) @ effs" "list_all is_effect effs"
      by (auto simp: grows_def)
    have 1: "log_shape StopWaiting (LoopDeferred DWgDone) (evs @ [EvClear])"
      using sh [unfolded DRegistryClear] by (rule log_shape_deferred) simp_all
    have 2: "log_shape StopWaiting (LoopDeferred DWgDone) ((evs @ [EvClear]) @ effs)"
      by (rule log_shape_append [OF 1]) (use effects_no_lifecycle [OF f(2)] in simp_all)
    have 3: "events s' = e0 @ ((evs @ [EvClear]) @ effs)"
      by (simp add: f(1) e(1))
    have sysq: "step E DeferredStep sys =
                  sys\<lparr>prog := ?p\<lparr>registry := r', ext := s'\<rparr>, loop_at := LoopDeferred DWgDone\<rparr>"
      using LoopDeferred DRegistryClear C by (simp add: Let_def)
    show ?thesis
      unfolding sysq
      using inv LoopDeferred DRegistryClear st fl 2 3 r'
      by (intro sys_invI [where evs = "(evs @ [EvClear]) @ effs"]) (simp_all add: sys_inv_def)
  next
    case DWgDone
    have "log_shape StopWaiting LoopReturned (evs @ [EvWgDone])"
      using sh [unfolded DWgDone] by (rule log_shape_deferred) simp_all
    then show ?thesis
      using inv LoopDeferred DWgDone st fl e(1)
      by (intro sys_invI [where evs = "evs @ [EvWgDone]"]) (simp_all add: sys_inv_def)
  qed
qed (use inv in simp_all)

lemma step_stop:
  assumes inv: "sys_inv e0 sys"
  shows "sys_inv e0 (step E StopStep sys)"
proof (cases "stop_at sys")
  case StopNotCalled
  from inv obtain evs where
    e: "events (ext (prog sys)) = e0 @ evs" "log_shape (stop_at sys) (loop_at sys) evs"
    by (auto simp: sys_inv_def)
  from inv StopNotCalled have lp: "loop_at sys = LoopSelect" by (simp add: sys_inv_def)
  have "log_shape StopWaiting LoopSelect (evs @ [EvCloseDone])"
    using e(2) StopNotCalled lp by (simp add: log_shape_def lifecycle_of_def)
  then show ?thesis
    using inv StopNotCalled lp e(1)
    by (intro sys_invI [where evs = "evs @ [EvCloseDone]"]) (simp_all add: sys_inv_def)
next
  case StopWaiting
  show ?thesis
  proof (cases "wg_counter sys = 0")
    case False
    with inv StopWaiting show ?thesis by simp
  next
    case True
    from inv obtain evs where
      e: "events (ext (prog sys)) = e0 @ evs" "log_shape (stop_at sys) (loop_at sys) evs"
      by (auto simp: sys_inv_def)
    from inv True have lp: "loop_at sys = LoopReturned"
      by (auto simp: sys_inv_def split: if_splits)
    from e(2) StopWaiting lp have sh: "log_shape StopWaiting LoopReturned evs" by simp
    have m: "EvMonitorStop \<in> set evs" using log_shape_mem [OF sh] by simp
    have "after_event EvMonitorStop (evs @ [EvStopReturns]) =
            after_event EvMonitorStop evs @ [EvStopReturns]"
      using m by (rule after_event_append)
    then have "log_shape StopReturned LoopReturned (evs @ [EvStopReturns])"
      using sh by (simp add: log_shape_def lifecycle_of_def calls_of_def)
    then show ?thesis
      using inv StopWaiting True lp e(1)
      by (intro sys_invI [where evs = "evs @ [EvStopReturns]"]) (simp_all add: sys_inv_def)
  qed
next
  case StopReturned
  with inv show ?thesis by simp
qed

lemma step_inv: "sys_inv e0 sys \<Longrightarrow> sys_inv e0 (step E a sys)"
  by (cases a)
     (simp_all only: step_stop step_done step_tick step_deferred step_exec step_exit step_handler)

lemma run_inv: "sys_inv e0 sys \<Longrightarrow> sys_inv e0 (run E schedule sys)"
  unfolding run_def by (induction schedule arbitrary: sys) (simp_all add: step_inv)

lemma PreStart_inv:
  assumes "PreStart E (newGoTLS excludeSelf root s0) = (None, sys1)"
  shows "sys_inv (events s0) sys1"
proof -
  from assms have s: "sys1 = (newGoTLS excludeSelf root s0)
      \<lparr>exec_subscribed := True, exit_subscribed := True,
       wg_counter := wg_counter (newGoTLS excludeSelf root s0) + 1, loop_at := LoopSelect\<rparr>"
    by (auto simp: PreStart_def split: option.splits)
  show ?thesis
    unfolding s
    by (intro sys_invI [where evs = "[]"])
       (simp_all add: newGoTLS_def log_shape_def lifecycle_of_def)
qed

subsection \<open>What Clear detaches\<close>

lemma unregisterCBCreator_detached:
  "\<exists>evs. events (snd (unregisterCBCreator E ids fp s)) = events s @ evs \<and> detached evs = ids"
proof (cases "ids = []")
  case True
  then show ?thesis by (simp add: unregisterCBCreator_def)
next
  case False
  let ?s1 = "removeInspectionResultFromMap (ID fp) s"
  from remove_events [of "ID fp" s] obtain r0 rest0 where
    a: "events ?s1 = events s @ EvMapDelete (binary_key (ID fp)) r0 # rest0"
       "rest0 = [] \<or> rest0 = [EvLogError ''could not remove inspection result from map'']"
    by blast
  from fold_detach_effect [of E ids ?s1] obtain evs where
    b: "events (fold (detach_one E) ids ?s1) = events ?s1 @ evs" "detached evs = ids"
    by blast
  have "detached (EvMapDelete (binary_key (ID fp)) r0 # rest0 @ evs) = ids"
    using a(2) b(2) by auto
  with False a(1) b(1) show ?thesis
    by (intro exI [of _ "EvMapDelete (binary_key (ID fp)) r0 # rest0 @ evs"])
       (simp add: unregisterCBCreator_def)
qed

lemma clear_entries_detached:
  "\<exists>evs. events (snd (clear_entries (unregisterCBCreator E) es (cs, s))) = events s @ evs
       \<and> detached evs = concat (map (\<lambda>(k, e). entry_handles e) es)"
proof (induction es arbitrary: cs s)
  case Nil
  then show ?case by simp
next
  case (Cons a es)
  obtain k e where a: "a = (k, e)" by (cases a)
  let ?s1 = "snd (unregisterCBCreator E (entry_handles e) (entry_path e) s)"
  from unregisterCBCreator_detached [of E "entry_handles e" "entry_path e" s] obtain e1 where
    1: "events ?s1 = events s @ e1" "detached e1 = entry_handles e"
    by blast
  from Cons.IH [of "cs @ [LastUnregisterCB k]" ?s1] obtain e2 where
    2: "events (snd (clear_entries (unregisterCBCreator E) es (cs @ [LastUnregisterCB k], ?s1))) =
          events ?s1 @ e2"
       "detached e2 = concat (map (\<lambda>(k, e). entry_handles e) es)"
    by blast
  show ?case
    unfolding a by (intro exI [of _ "e1 @ e2"]) (simp add: 1 2)
qed

lemma Clear_detached:
  "detached (new_events s (snd (Clear (unregisterCBCreator E) r s))) =
     concat (map (\<lambda>(k, e). entry_handles e) (entries r))"
proof -
  from clear_entries_detached [of E "entries r" "callbacks r" s] obtain evs where
    e: "events (snd (clear_entries (unregisterCBCreator E) (entries r) (callbacks r, s))) = events s @ evs"
       "detached evs = concat (map (\<lambda>(k, e). entry_handles e) (entries r))"
    by blast
  have "snd (Clear (unregisterCBCreator E) r s) =
          snd (clear_entries (unregisterCBCreator E) (entries r) (callbacks r, s))"
    by (simp add: Clear_def split: prod.splits)
  with e show ?thesis by (simp add: new_events_def)
qed

subsection \<open>What stays installed when Stop returns\<close>

lemma unregisterCBCreator_probes:
  "manager_Probes (snd (unregisterCBCreator E ids fp s)) = fold (surviving E) ids (manager_Probes s)"
proof (cases "ids = []")
  case True
  then show ?thesis by (simp add: unregisterCBCreator_def)
next
  case False
  from fold_detach_effect [of E ids "removeInspectionResultFromMap (ID fp) s"]
  have "manager_Probes (fold (detach_one E) ids (removeInspectionResultFromMap (ID fp) s)) =
          fold (surviving E) ids (manager_Probes s)"
    by auto
  with False show ?thesis by (simp add: unregisterCBCreator_def)
qed

lemma clear_entries_probes:
  "manager_Probes (snd (clear_entries (unregisterCBCreator E) es (cs, s))) =
     fold (surviving E) (concat (map (\<lambda>(k, e). entry_handles e) es)) (manager_Probes s)"
proof (induction es arbitrary: cs s)
  case Nil
  then show ?case by simp
next
  case (Cons a es)
  obtain k e where a: "a = (k, e)" by (cases a)
  show ?case
    unfolding a by (simp add: Cons.IH unregisterCBCreator_probes)
qed

lemma Clear_probes:
  "manager_Probes (snd (Clear (unregisterCBCreator E) r s)) =
     fold (surviving E) (concat (map (\<lambda>(k, e). entry_handles e) (entries r))) (manager_Probes s)"
proof -
  have "snd (Clear (unregisterCBCreator E) r s) =
          snd (clear_entries (unregisterCBCreator E) (entries r) (callbacks r, s))"
    by (simp add: Clear_def split: prod.splits)
  then show ?thesis by (simp add: clear_entries_probes)
qed

lemma cleared_cases: "cleared lp \<Longrightarrow> lp = LoopDeferred DWgDone \<or> lp = LoopReturned"
proof (cases lp)
  case (LoopDeferred d)
  assume "cleared lp"
  with LoopDeferred show ?thesis by (cases d) simp_all
qed simp_all

text \<open>Once the registry is cleared no step touches the manager's probes.\<close>

lemma step_cleared:
  assumes inv: "sys_inv e0 sys" and c: "cleared (loop_at sys)"
  shows "cleared (loop_at (step E a sys))
       \<and> manager_Probes (ext (prog (step E a sys))) = manager_Probes (ext (prog sys))"
proof -
  from cleared_cases [OF c] have lp: "loop_at sys = LoopDeferred DWgDone \<or> loop_at sys = LoopReturned" .
  from inv c have fl: "in_flight sys = []"
    using not_stopped(3) [of "loop_at sys"] by (auto simp: sys_inv_def)
  show ?thesis
  proof (cases a)
    case StopStep
    with lp show ?thesis
      by (cases "stop_at sys") (auto simp: sys_event_def record_event_def emit_def)
  next
    case DeferredStep
    with lp show ?thesis
      by (auto simp: sys_event_def record_event_def emit_def)
  next
    case (HandlerRuns n)
    with fl c show ?thesis by simp
  qed (use lp in auto)
qed

lemma run_cleared:
  assumes "sys_inv e0 sys" "cleared (loop_at sys)"
  shows "manager_Probes (ext (prog (fold (step E) sched sys))) = manager_Probes (ext (prog sys))"
  using assms
proof (induction sched arbitrary: sys)
  case Nil
  then show ?case by simp
next
  case (Cons a sched)
  from step_cleared [OF Cons.prems, of E a] step_inv [OF Cons.prems(1), of E a]
  show ?case using Cons.IH [of "step E a sys"] by simp
qed

text \<open>The registry is cleared by one step only: the deferred call of \<open>Clear\<close>.\<close>

lemma step_clears:
  assumes "\<not> cleared (loop_at sys)" "cleared (loop_at (step E a sys))"
  shows "a = DeferredStep \<and> loop_at sys = LoopDeferred DRegistryClear"
proof (cases a)
  case StopStep
  with assms show ?thesis
    by (cases "stop_at sys") (auto simp: sys_event_def split: if_splits)
next
  case DeferredStep
  show ?thesis
  proof (cases "loop_at sys")
    case (LoopDeferred d)
    with assms DeferredStep show ?thesis
      by (cases d) (auto simp: sys_event_def split: if_splits)
  qed (use assms DeferredStep in auto)
qed (use assms in \<open>auto split: if_splits\<close>)

lemma run_reaches_clear:
  assumes "sys_inv e0 sys" "\<not> cleared (loop_at sys)"
      and "cleared (loop_at (fold (step E) sched sys))"
  shows "\<exists>pre post. sched = pre @ DeferredStep # post
           \<and> loop_at (fold (step E) pre sys) = LoopDeferred DRegistryClear
           \<and> manager_Probes (ext (prog (fold (step E) sched sys))) =
               manager_Probes (ext (prog (step E DeferredStep (fold (step E) pre sys))))"
  using assms
proof (induction sched arbitrary: sys)
  case Nil
  then show ?case by simp
next
  case (Cons a sched)
  have inv': "sys_inv e0 (step E a sys)" using Cons.prems(1) by (rule step_inv)
  show ?case
  proof (cases "cleared (loop_at (step E a sys))")
    case True
    from step_clears [OF Cons.prems(2) True]
    have a: "a = DeferredStep" "loop_at sys = LoopDeferred DRegistryClear" by simp_all
    from run_cleared [OF inv' True, of E sched]
    have "manager_Probes (ext (prog (fold (step E) (a # sched) sys))) =
            manager_Probes (ext (prog (step E DeferredStep (fold (step E) [] sys))))"
      by (simp add: a(1))
    with a show ?thesis
      by (intro exI [of _ "[]"] exI [of _ sched]) simp
  next
    case False
    from Cons.IH [OF inv' False] Cons.prems(3) obtain pre post where
      p: "sched = pre @ DeferredStep # post"
         "loop_at (fold (step E) pre (step E a sys)) = LoopDeferred DRegistryClear"
         "manager_Probes (ext (prog (fold (step E) sched (step E a sys)))) =
            manager_Probes (ext (prog (step E DeferredStep (fold (step E) pre (step E a sys)))))"
      by auto
    then show ?thesis
      by (intro exI [of _ "a # pre"] exI [of _ post]) simp
  qed
qed

lemma clear_step_probes:
  assumes "loop_at sys = LoopDeferred DRegistryClear"
  shows "manager_Probes (ext (prog (step E DeferredStep sys))) =
           fold (surviving E)
             (concat (map (\<lambda>(k, e). entry_handles e) (entries (registry (prog sys)))))
             (manager_Probes (ext (prog sys)))"
proof -
  let ?p = "record_event EvClear (prog sys)"
  have "prog (step E DeferredStep sys) =
          ?p\<lparr>registry := fst (Clear (unregisterCBCreator E) (registry ?p) (ext ?p)),
              ext := snd (Clear (unregisterCBCreator E) (registry ?p) (ext ?p))\<rparr>"
    using assms by (simp add: Let_def split: prod.splits)
  then show ?thesis
    by (simp add: Clear_probes emit_def)
qed

text \<open>
  Claim C4, whose last clause the source keeps for the hooks the registry holds, as far
  as \<open>DetachHook\<close> succeeds. Start the program with \<open>PreStart\<close> and let the goroutine of
  \<open>Stop\<close>, the main goroutine and the process monitor take steps in any order. Whenever
  \<open>Stop\<close> has returned, the events of stopping in the log are, in this order: \<open>done\<close>
  is closed, the ticker is stopped, the start handler is unsubscribed, the exit handler
  is unsubscribed, the process monitor is stopped, \<open>Clear\<close> is called on the registry,
  the wait group is released, \<open>Stop\<close> returns. After the process monitor is stopped,
  which waits for the handler calls in flight, no \<open>AttachPID\<close> or \<open>DetachPID\<close> is
  called; when \<open>Stop\<close> returns the registry is empty, both handlers are unsubscribed
  and no handler call is in flight. \<open>Clear\<close> calls \<open>DetachHook\<close> on every probe of
  every entry the registry holds, whichever processes are still registered, and leaves
  with the manager the probes it had, without each of those whose \<open>DetachHook\<close>
  succeeded. And the probes the manager has when \<open>Stop\<close> returns are exactly those
  \<open>Clear\<close> left, when it ran on the registry as it was at that step of the schedule:
  a probe of an entry whose \<open>DetachHook\<close> fails is logged and stays installed.
\<close>

theorem stop_detaches_the_hooks_of_the_registry:
  assumes "PreStart E (newGoTLS excludeSelf root s0) = (None, sys1)"
      and "stop_at (run E schedule sys1) = StopReturned"
  shows "lifecycle_of (new_events s0 (ext (prog (run E schedule sys1)))) =
           [EvCloseDone, EvTickerStop, EvCleanupExec, EvCleanupExit, EvMonitorStop, EvClear,
            EvWgDone, EvStopReturns]
       \<and> calls_of (after_event EvMonitorStop (new_events s0 (ext (prog (run E schedule sys1))))) = []
       \<and> entries (registry (prog (run E schedule sys1))) = []
       \<and> \<not> exec_subscribed (run E schedule sys1)
       \<and> \<not> exit_subscribed (run E schedule sys1)
       \<and> in_flight (run E schedule sys1) = []
       \<and> entries (fst (Clear (unregisterCBCreator E) r s)) = []
       \<and> detached (new_events s (snd (Clear (unregisterCBCreator E) r s))) =
           concat (map (\<lambda>(k, e). entry_handles e) (entries r))
       \<and> manager_Probes (snd (Clear (unregisterCBCreator E) r s)) =
           fold (surviving E) (concat (map (\<lambda>(k, e). entry_handles e) (entries r)))
             (manager_Probes s)
       \<and> (\<exists>pre post. schedule = pre @ DeferredStep # post
             \<and> loop_at (run E pre sys1) = LoopDeferred DRegistryClear
             \<and> manager_Probes (ext (prog (run E schedule sys1))) =
                 fold (surviving E)
                   (concat (map (\<lambda>(k, e). entry_handles e)
                      (entries (registry (prog (run E pre sys1))))))
                   (manager_Probes (ext (prog (run E pre sys1)))))"
proof -
  let ?sys = "run E schedule sys1"
  have inv1: "sys_inv (events s0) sys1" using assms(1) by (rule PreStart_inv)
  have inv: "sys_inv (events s0) ?sys"
    using inv1 by (rule run_inv)
  from inv assms(2) have lp: "loop_at ?sys = LoopReturned" by (simp add: sys_inv_def)
  from inv obtain evs where
    e: "events (ext (prog ?sys)) = events s0 @ evs" "log_shape (stop_at ?sys) (loop_at ?sys) evs"
    by (auto simp: sys_inv_def)
  have n: "new_events s0 (ext (prog ?sys)) = evs" by (simp add: new_events_def e(1))
  from e(2) have sh: "log_shape StopReturned LoopReturned evs" by (simp add: assms(2) lp)
  have 1: "lifecycle_of evs =
           [EvCloseDone, EvTickerStop, EvCleanupExec, EvCleanupExit, EvMonitorStop, EvClear,
            EvWgDone, EvStopReturns]"
    using sh by (simp add: log_shape_def)
  have 2: "calls_of (after_event EvMonitorStop evs) = []"
    using sh by (simp add: log_shape_def)
  have 3: "entries (registry (prog ?sys)) = []" "\<not> exec_subscribed ?sys" "\<not> exit_subscribed ?sys"
    "in_flight ?sys = []"
    using inv lp by (simp_all add: sys_inv_def)
  from assms(1) have l1: "loop_at sys1 = LoopSelect"
    by (auto simp: PreStart_def split: option.splits)
  have nc: "\<not> cleared (loop_at sys1)" by (simp add: l1)
  have cl: "cleared (loop_at (fold (step E) schedule sys1))"
    using lp by (simp add: run_def)
  from run_reaches_clear [OF inv1 nc cl] obtain pre post where
    p: "schedule = pre @ DeferredStep # post"
       "loop_at (fold (step E) pre sys1) = LoopDeferred DRegistryClear"
       "manager_Probes (ext (prog (fold (step E) schedule sys1))) =
          manager_Probes (ext (prog (step E DeferredStep (fold (step E) pre sys1))))"
    by blast
  have 4: "\<exists>pre post. schedule = pre @ DeferredStep # post
             \<and> loop_at (run E pre sys1) = LoopDeferred DRegistryClear
             \<and> manager_Probes (ext (prog (run E schedule sys1))) =
                 fold (surviving E)
                   (concat (map (\<lambda>(k, e). entry_handles e)
                      (entries (registry (prog (run E pre sys1))))))
                   (manager_Probes (ext (prog (run E pre sys1))))"
    unfolding run_def
    using p(1) p(2) p(3) [unfolded clear_step_probes [OF p(2)]] by blast
  show ?thesis
    unfolding n using 1 2 3 4 Clear_detached [of s E r] Clear_probes [of E r s] by simp
qed

text \<open>
  On that run \<open>Stop\<close> returns with the events of stopping in their order. When
  \<open>Clear\<close> is about to run the manager has the six probes of the binary, and when
  \<open>Stop\<close> returns it has none.
\<close>

theorem stop_detaches_the_hooks_of_the_registry_witness:
  "PreStart env0 (newGoTLS True ''/proc'' ext0) = (None, sys_started)
   \<and> stop_at (run env0 schedule0 sys_started) = StopReturned
   \<and> lifecycle_of (new_events ext0 (ext (prog (run env0 schedule0 sys_started)))) =
           [EvCloseDone, EvTickerStop, EvCleanupExec, EvCleanupExit, EvMonitorStop, EvClear,
            EvWgDone, EvStopReturns]
   \<and> entries (registry (prog (run env0 schedule0 sys_started))) = []
   \<and> entries (registry prog1) \<noteq> []
   \<and> detached (new_events (ext prog1) (snd (Clear (unregisterCBCreator env0) (registry prog1) (ext prog1)))) =
       probeIDs0
   \<and> loop_at (run env0 schedule0_until_clear sys_started) = LoopDeferred DRegistryClear
   \<and> map ProbeIdentificationPair_of
       (manager_Probes (ext (prog (run env0 schedule0_until_clear sys_started)))) = probeIDs0
   \<and> manager_Probes (ext (prog (run env0 schedule0 sys_started))) = []"
proof -
  have p: "PreStart env0 (newGoTLS True ''/proc'' ext0) = (None, sys_started)"
    by (simp add: sys_started_def PreStart_def env0_def)
  have s: "stop_at (run env0 schedule0 sys_started) = StopReturned"
    by (simp add: run_def schedule0_def schedule0_until_clear_def sys_started_def PreStart_def
          newGoTLS_def env0_def sys_event_def Let_def split_beta)
  have l: "loop_at (run env0 schedule0_until_clear sys_started) = LoopDeferred DRegistryClear"
    by (simp add: run_def schedule0_until_clear_def sys_started_def PreStart_def
          newGoTLS_def env0_def sys_event_def Let_def split_beta)
  have e: "entries (registry prog1) \<noteq> []"
          "concat (map (\<lambda>(k, e). entry_handles e) (entries (registry prog1))) = probeIDs0"
    by (simp_all add: prog1_registry)
  have b: "map ProbeIdentificationPair_of
             (manager_Probes (ext (prog (run env0 schedule0_until_clear sys_started)))) = probeIDs0"
    by code_simp
  have f: "manager_Probes (ext (prog (run env0 schedule0 sys_started))) = []"
    by code_simp
  show ?thesis
    using stop_detaches_the_hooks_of_the_registry [OF p s, of "registry prog1" "ext prog1"]
      p s e l b f
    by simp
qed

text \<open>
  Claim C4 as it is written does not hold of a host where detaching can fail. On the
  host where the manager refuses to detach the entry probe of \<open>Read\<close>, the handler of
  process 42 installs the six probes of the binary. On the run above \<open>Stop\<close> returns
  and the registry is empty, but the entry probe of \<open>Read\<close> is still installed: the
  unregister callback logs a \<open>DetachHook\<close> that fails and goes on.
\<close>

theorem a_hook_that_fails_to_detach_outlives_stop:
  "PreStart env_detach_fails (newGoTLS True ''/proc'' ext0) = (None, sys_started)
   \<and> stop_at (run env_detach_fails schedule_busy sys_started) = StopReturned
   \<and> entries (registry (prog (run env_detach_fails schedule_busy sys_started))) = []
   \<and> manager_Probes (ext (prog (run env_detach_fails schedule_busy sys_started))) =
       [\<lparr>ProbeIdentificationPair_of = \<lparr>EBPFFuncName = connReadProbe, UID = ''u77''\<rparr>,
         BinaryPath = ''/host/usr/bin/app'', UprobeOffset = 0x1000\<rparr>]"
proof -
  have p: "PreStart env_detach_fails (newGoTLS True ''/proc'' ext0) = (None, sys_started)"
    by (simp add: sys_started_def PreStart_def env_detach_fails_def env0_def)
  have s: "stop_at (run env_detach_fails schedule_busy sys_started) = StopReturned"
    by (simp add: run_def schedule_busy_def sys_started_def PreStart_def
          newGoTLS_def env0_def sys_event_def Let_def split_beta)
  have "sys_inv (events ext0) (run env_detach_fails schedule_busy sys_started)"
    using PreStart_inv [OF p] by (rule run_inv)
  with s have r: "entries (registry (prog (run env_detach_fails schedule_busy sys_started))) = []"
    by (simp add: sys_inv_def)
  have m: "manager_Probes (ext (prog (run env_detach_fails schedule_busy sys_started))) =
       [\<lparr>ProbeIdentificationPair_of = \<lparr>EBPFFuncName = connReadProbe, UID = ''u77''\<rparr>,
         BinaryPath = ''/host/usr/bin/app'', UprobeOffset = 0x1000\<rparr>]"
    by code_simp
  show ?thesis using p s r m by simp
qed

end
